theory Spec2Isabelle
  imports Main "HOL-Library.Sublist" "HOL-Library.List_Lexorder" "HOL-Library.Char_ord"
begin

section \<open>JavaScript values used by the storage module\<close>

text \<open>
  The storage module (\<^verbatim>\<open>Storage\<close>, in its local-storage and its Gist variant) works on
  JavaScript strings and numbers. A string is a \<^typ>\<open>string\<close>; case folding and
  white space are modelled on the ASCII range. A number is \<open>NaN\<close>, an infinity, or a
  finite decimal \<open>Fin m d\<close> standing for \<open>m / 10 ^ d\<close>: the decimal that
  \<^verbatim>\<open>Number.prototype.toString\<close> prints. Arithmetic on \<open>Fin\<close> is exact, as
  JavaScript's is on integers below \<open>2 ^ 53\<close>; rounding of larger values is not
  modelled, and there is no negative zero.
\<close>

datatype number = NaN | PosInfinity | NegInfinity | Fin int nat

abbreviation Number :: "int \<Rightarrow> number" where
  "Number n \<equiv> Fin n 0"

text \<open>\<^verbatim>\<open>Number.isFinite\<close>: neither \<open>NaN\<close> nor an infinity.\<close>

fun isFinite :: "number \<Rightarrow> bool" where
  "isFinite (Fin m d) = True"
| "isFinite x = False"

text \<open>The values a caller passes for a quantity or a price: a form hands over strings,
  code hands over numbers, an absent property reads as \<open>Undefined\<close>.\<close>

datatype jsval = Undefined | Null | Num number | Str string

subsection \<open>Numbers: normal form, comparison, subtraction\<close>

text \<open>\<open>norm m d\<close> cancels the trailing zeros that the decimal places allow, so that
  every finite value has one representation.\<close>

fun norm :: "int \<Rightarrow> nat \<Rightarrow> number" where
  "norm m 0 = Fin m 0"
| "norm m (Suc d) = (if m mod 10 = 0 then norm (m div 10) d else Fin m (Suc d))"

text \<open>\<^verbatim>\<open>a < b\<close> on numbers: false as soon as one side is \<open>NaN\<close>.\<close>

fun num_lt :: "number \<Rightarrow> number \<Rightarrow> bool" where
  "num_lt NaN b = False"
| "num_lt a NaN = False"
| "num_lt PosInfinity b = False"
| "num_lt a PosInfinity = True"
| "num_lt a NegInfinity = False"
| "num_lt NegInfinity b = True"
| "num_lt (Fin m d) (Fin m' d') = (m * 10 ^ d' < m' * 10 ^ d)"

text \<open>\<^verbatim>\<open>a <= b\<close> is \<^verbatim>\<open>!(b < a)\<close>, except that it is false when a side is \<open>NaN\<close>.\<close>

definition num_le :: "number \<Rightarrow> number \<Rightarrow> bool" where
  "num_le a b = (a \<noteq> NaN \<and> b \<noteq> NaN \<and> \<not> num_lt b a)"

text \<open>\<^verbatim>\<open>a - b\<close> on numbers. The difference of two finite numbers is exact here. It is
  JavaScript's result when both numbers and their difference are integers of magnitude
  at most \<open>2 ^ 53\<close>; beyond that, and on fractions, binary64 arithmetic rounds. The
  properties that name the value of a difference are stated within that bound.\<close>

fun num_sub :: "number \<Rightarrow> number \<Rightarrow> number" where
  "num_sub NaN b = NaN"
| "num_sub a NaN = NaN"
| "num_sub PosInfinity PosInfinity = NaN"
| "num_sub NegInfinity NegInfinity = NaN"
| "num_sub PosInfinity b = PosInfinity"
| "num_sub NegInfinity b = NegInfinity"
| "num_sub a PosInfinity = NegInfinity"
| "num_sub a NegInfinity = PosInfinity"
| "num_sub (Fin m d) (Fin m' d') =
     norm (m * 10 ^ (max d d' - d) - m' * 10 ^ (max d d' - d')) (max d d')"

text \<open>\<^verbatim>\<open>a || b\<close> with a number on the left: \<open>NaN\<close> and zero are falsy.\<close>

fun num_or :: "number \<Rightarrow> number \<Rightarrow> number" where
  "num_or NaN b = b"
| "num_or (Fin m d) b = (if m = 0 then b else Fin m d)"
| "num_or a b = a"

subsection \<open>Strings: digits, white space, case\<close>

definition digit_char :: "nat \<Rightarrow> char" where
  "digit_char n = ''0123456789'' ! n"

text \<open>The decimal digits of a natural number, most significant first: as values, and
  as characters.\<close>

fun dec_digits :: "nat \<Rightarrow> nat list" where
  "dec_digits n = (if n < 10 then [n] else dec_digits (n div 10) @ [n mod 10])"

declare dec_digits.simps [simp del]

definition digits_of :: "nat \<Rightarrow> string" where
  "digits_of n = map digit_char (dec_digits n)"

text \<open>The value of a character as a digit, up to radix 16.\<close>

definition digit_val :: "char \<Rightarrow> nat option" where
  "digit_val c =
     (let n = (of_char c :: nat) in
      if 48 \<le> n \<and> n \<le> 57 then Some (n - 48)
      else if 97 \<le> n \<and> n \<le> 102 then Some (n - 87)
      else if 65 \<le> n \<and> n \<le> 70 then Some (n - 55)
      else None)"

definition is_digit :: "char \<Rightarrow> bool" where
  "is_digit c = (case digit_val c of Some v \<Rightarrow> v < 10 | None \<Rightarrow> False)"

text \<open>The digit values of the longest prefix of \<open>s\<close> made of digits of radix \<open>R\<close>.\<close>

fun radix_prefix :: "nat \<Rightarrow> string \<Rightarrow> nat list" where
  "radix_prefix R [] = []"
| "radix_prefix R (c # cs) =
     (case digit_val c of
        Some v \<Rightarrow> if v < R then v # radix_prefix R cs else []
      | None \<Rightarrow> [])"

definition radix_value :: "nat \<Rightarrow> nat list \<Rightarrow> nat" where
  "radix_value R vs = foldl (\<lambda>a v. a * R + v) 0 vs"

text \<open>White space, on the ASCII range: tab, line feed, vertical tab, form feed,
  carriage return, space.\<close>

definition is_space :: "char \<Rightarrow> bool" where
  "is_space c = (let n = (of_char c :: nat) in (9 \<le> n \<and> n \<le> 13) \<or> n = 32)"

text \<open>\<^verbatim>\<open>String.prototype.trim\<close>: white space removed at both ends.\<close>

definition trim :: "string \<Rightarrow> string" where
  "trim s = rev (dropWhile is_space (rev (dropWhile is_space s)))"

text \<open>\<^verbatim>\<open>String.prototype.toLowerCase\<close>, on the ASCII letters.\<close>

definition lower_char :: "char \<Rightarrow> char" where
  "lower_char c =
     (let n = (of_char c :: nat) in if 65 \<le> n \<and> n \<le> 90 then char_of (n + 32) else c)"

definition toLowerCase :: "string \<Rightarrow> string" where
  "toLowerCase s = map lower_char s"

text \<open>\<^verbatim>\<open>s.includes(t)\<close>: \<open>t\<close> occurs in \<open>s\<close> as a contiguous substring.\<close>

definition includes_str :: "string \<Rightarrow> string \<Rightarrow> bool" where
  "includes_str s t = sublist t s"

subsection \<open>Number to string\<close>

text \<open>\<open>strip_zeros m\<close> splits \<open>m\<close> into \<open>(s, z)\<close> with \<open>m = s * 10 ^ z\<close> and \<open>s\<close> not
  a multiple of ten.\<close>

fun strip_zeros :: "nat \<Rightarrow> nat \<times> nat" where
  "strip_zeros m =
     (if m = 0 \<or> m mod 10 \<noteq> 0 then (m, 0)
      else (case strip_zeros (m div 10) of (s, z) \<Rightarrow> (s, Suc z)))"

declare strip_zeros.simps [simp del]

text \<open>
  \<^verbatim>\<open>Number::toString\<close> of ECMAScript, radix 10. With \<open>s\<close> the significant digits,
  \<open>k\<close> their count and \<open>n\<close> the position of the decimal point (the value is
  \<open>s * 10 ^ (n - k)\<close>): plain notation for \<open>-6 < n \<le> 21\<close>, exponent notation otherwise.
\<close>

definition Number_toString :: "number \<Rightarrow> string" where
  "Number_toString x =
     (case x of
        NaN \<Rightarrow> ''NaN''
      | PosInfinity \<Rightarrow> ''Infinity''
      | NegInfinity \<Rightarrow> ''-Infinity''
      | Fin m d \<Rightarrow>
          if m = 0 then ''0''
          else
            (let (s, z) = strip_zeros (nat \<bar>m\<bar>);
                 ds = digits_of s;
                 k = int (length ds);
                 n = k + int z - int d;
                 body =
                   (if k \<le> n \<and> n \<le> 21 then ds @ replicate (nat (n - k)) (CHR ''0'')
                    else if 0 < n \<and> n \<le> 21 then take (nat n) ds @ ''.'' @ drop (nat n) ds
                    else if - 6 < n \<and> n \<le> 0
                      then ''0.'' @ replicate (nat (- n)) (CHR ''0'') @ ds
                    else (if k = 1 then ds else hd ds # ''.'' @ tl ds) @ ''e''
                         @ (if n - 1 < 0 then ''-'' else ''+'')
                         @ digits_of (nat \<bar>n - 1\<bar>))
             in (if m < 0 then ''-'' else []) @ body))"

text \<open>\<^verbatim>\<open>ToString\<close> on the values of \<^typ>\<open>jsval\<close>.\<close>

fun ToString :: "jsval \<Rightarrow> string" where
  "ToString Undefined = ''undefined''"
| "ToString Null = ''null''"
| "ToString (Num x) = Number_toString x"
| "ToString (Str s) = s"

subsection \<open>parseInt and parseFloat\<close>

text \<open>A leading sign: whether it is a minus, and the rest of the string.\<close>

fun take_sign :: "string \<Rightarrow> bool \<times> string" where
  "take_sign [] = (False, [])"
| "take_sign (c # cs) =
     (if c = CHR ''-'' then (True, cs) else if c = CHR ''+'' then (False, cs) else (False, c # cs))"

text \<open>A leading \<^verbatim>\<open>0x\<close> or \<^verbatim>\<open>0X\<close> selects radix 16.\<close>

fun take_radix :: "string \<Rightarrow> nat \<times> string" where
  "take_radix (a # b # cs) =
     (if a = CHR ''0'' \<and> (b = CHR ''x'' \<or> b = CHR ''X'') then (16, cs) else (10, a # b # cs))"
| "take_radix cs = (10, cs)"

text \<open>
  \<^verbatim>\<open>parseInt(string)\<close> with no radix argument: leading white space is skipped, then
  a sign, then a hexadecimal prefix; the longest run of digits is the value, and no
  digit at all gives \<open>NaN\<close>.
\<close>

definition parseInt_string :: "string \<Rightarrow> number" where
  "parseInt_string input =
     (let (neg, s1) = take_sign (dropWhile is_space input);
          (R, s2) = take_radix s1;
          Z = radix_prefix R s2
      in if Z = [] then NaN
         else Number ((if neg then - 1 else 1) * int (radix_value R Z)))"

definition parseInt :: "jsval \<Rightarrow> number" where
  "parseInt v = parseInt_string (ToString v)"




section \<open>The inventory and its store\<close>

text \<open>
  An inventory item, typed as the header comment of the storage module gives it:
  \<^verbatim>\<open>barcode: string | null\<close>, three strings, three numbers, two ISO-8601 time
  stamps. Time stamps of one format compare as strings the way they compare in time.
\<close>

record item =
  item_id :: string
  barcode :: "string option"
  stockNumber :: string
  supplier :: string
  description :: string
  costPrice :: number
  sellingPrice :: number
  quantity :: number
  createdAt :: string
  updatedAt :: string

text \<open>
  The store holds one collection, read whole by \<^verbatim>\<open>getAllItems\<close> and written whole by
  \<^verbatim>\<open>saveAllItems\<close>; \<open>setItem_calls\<close> counts the writes, so that a call that writes
  nothing leaves the store equal to what it was. The JSON text that the slot holds
  between a write and the next read is modelled further down, with export and import:
  an item whose numbers are finite is read back as it was written, and a number that
  is not finite is written as \<^verbatim>\<open>null\<close>, which the record cannot hold. What is read back
  after a write is therefore stated for finite numbers.
  The Gist variant of the module runs the same function bodies on the
  collection that \<^verbatim>\<open>getAllItems(true)\<close> fetched.
\<close>

record storage =
  stored :: "item list"
  setItem_calls :: nat

definition getAllItems :: "storage \<Rightarrow> item list" where
  "getAllItems st = stored st"

definition saveAllItems :: "item list \<Rightarrow> storage \<Rightarrow> storage" where
  "saveAllItems items st = st\<lparr>stored := items, setItem_calls := Suc (setItem_calls st)\<rparr>"

text \<open>\<^verbatim>\<open>Array.prototype.findIndex\<close>: the first index whose element satisfies \<open>p\<close>,
  or \<open>-1\<close>.\<close>

fun findIndex :: "('a \<Rightarrow> bool) \<Rightarrow> 'a list \<Rightarrow> int" where
  "findIndex p [] = - 1"
| "findIndex p (x # xs) =
     (if p x then 0 else (let i = findIndex p xs in if i = - 1 then - 1 else i + 1))"

subsection \<open>Lookup and search\<close>

definition getItemById :: "string \<Rightarrow> storage \<Rightarrow> item option" where
  "getItemById ident st = find (\<lambda>item. item_id item = ident) (getAllItems st)"

definition getItemByBarcode :: "string \<Rightarrow> storage \<Rightarrow> item option" where
  "getItemByBarcode code st = find (\<lambda>item. barcode item = Some code) (getAllItems st)"

text \<open>The filter of \<^verbatim>\<open>searchItems\<close>; an empty or absent barcode is falsy and is not
  compared.\<close>

definition matches :: "string \<Rightarrow> item \<Rightarrow> bool" where
  "matches searchTerm item =
     (includes_str (toLowerCase (description item)) searchTerm \<or>
      includes_str (toLowerCase (stockNumber item)) searchTerm \<or>
      includes_str (toLowerCase (supplier item)) searchTerm \<or>
      (case barcode item of
         None \<Rightarrow> False
       | Some b \<Rightarrow> b \<noteq> [] \<and> includes_str (toLowerCase b) searchTerm))"

definition searchItems :: "string \<Rightarrow> storage \<Rightarrow> item list" where
  "searchItems query st =
     (let items = getAllItems st in
      if query = [] \<or> trim query = [] then []
      else (let searchTerm = trim (toLowerCase query) in filter (matches searchTerm) items))"

text \<open>
  \<^verbatim>\<open>handleBarcodeDetected\<close> of the application module: the branch it takes. Both the
  exact match and the single search hit end in \<^verbatim>\<open>showItemDetail\<close>; several hits
  fill the search view; no hit opens the form to add the code as a new item.
\<close>

datatype resolution =
  ExactMatch item | SingleMatch item | MultipleMatches "item list" | NoMatch

definition handleBarcodeDetected :: "string \<Rightarrow> storage \<Rightarrow> resolution" where
  "handleBarcodeDetected code st =
     (case getItemByBarcode code st of
        Some item \<Rightarrow> ExactMatch item
      | None \<Rightarrow>
          (let items = searchItems code st in
           if length items = 1 then SingleMatch (items ! 0)
           else if length items > 1 then MultipleMatches items
           else NoMatch))"

subsection \<open>Adding, updating, deleting\<close>










subsection \<open>Removing stock\<close>

text \<open>
  What \<^verbatim>\<open>removeStock\<close> resolves to. The three failures are the objects
  \<^verbatim>\<open>{success: false, error: ...}\<close> with the messages \<^verbatim>\<open>Item not found\<close>,
  \<^verbatim>\<open>Invalid quantity\<close> and \<^verbatim>\<open>Not enough stock. Available: n\<close> (carrying the item's
  quantity); the success carries the stored item and the removed amount.
\<close>

datatype removal =
  NotFound | InvalidQuantity | InsufficientStock number | Success item number

definition removeStock :: "string \<Rightarrow> jsval \<Rightarrow> string \<Rightarrow> storage \<Rightarrow> removal \<times> storage" where
  "removeStock ident qty now st =
     (let items = getAllItems st;
          index = findIndex (\<lambda>item. item_id item = ident) items
      in if index = - 1 then (NotFound, st)
         else
           (let item = items ! nat index;
                removeQty = num_or (parseInt qty) (Number 0)
            in if num_le removeQty (Number 0) then (InvalidQuantity, st)
               else if num_lt (quantity item) removeQty
                 then (InsufficientStock (quantity item), st)
               else
                 (let items' = items[nat index := item\<lparr>quantity := num_sub (quantity item) removeQty,
                                                        updatedAt := now\<rparr>]
                  in (Success (items' ! nat index) removeQty, saveAllItems items' st))))"

section \<open>JSON text: export and import\<close>

text \<open>
  The value that \<^verbatim>\<open>JSON.parse\<close> returns and \<^verbatim>\<open>JSON.stringify\<close> prints. An object is
  the list of its members in insertion order. (JavaScript moves keys that are array
  indices to the front; no key of an inventory record is one.)
\<close>

datatype json =
  JNull | JBool bool | JNum number | JStr string | JArr "json list" | JObj "(string \<times> json) list"

subsection \<open>JSON.stringify\<close>

definition hex_char :: "nat \<Rightarrow> char" where
  "hex_char n = ''0123456789abcdef'' ! n"

text \<open>\<^verbatim>\<open>QuoteJSONString\<close>: the quote, the backslash and the control characters are
  escaped, every other character stands for itself.\<close>

definition quote_char :: "char \<Rightarrow> string" where
  "quote_char c =
     (if c = CHR 0x22 then [CHR 0x5C, CHR 0x22]
      else if c = CHR 0x5C then [CHR 0x5C, CHR 0x5C]
      else if c = CHR 0x08 then [CHR 0x5C, CHR ''b'']
      else if c = CHR 0x09 then [CHR 0x5C, CHR ''t'']
      else if c = CHR 0x0A then [CHR 0x5C, CHR ''n'']
      else if c = CHR 0x0C then [CHR 0x5C, CHR ''f'']
      else if c = CHR 0x0D then [CHR 0x5C, CHR ''r'']
      else if (of_char c :: nat) < 0x20
        then [CHR 0x5C, CHR ''u'', CHR ''0'', CHR ''0'',
              hex_char ((of_char c :: nat) div 16), hex_char ((of_char c :: nat) mod 16)]
      else [c])"

definition QuoteJSONString :: "string \<Rightarrow> string" where
  "QuoteJSONString s = CHR 0x22 # concat (map quote_char s) @ [CHR 0x22]"

text \<open>The parts of an array or object, joined by a separator.\<close>

fun join :: "string \<Rightarrow> string list \<Rightarrow> string" where
  "join sep [] = []"
| "join sep [x] = x"
| "join sep (x # y # ys) = x @ sep @ join sep (y # ys)"

text \<open>
  The brackets around the joined parts. Without a gap the parts are separated by a
  comma; with a gap every part stands on a line of its own, indented by the current
  indentation and the gap, and the closing bracket is indented by the current
  indentation.
\<close>

definition wrap :: "string \<Rightarrow> string \<Rightarrow> char \<Rightarrow> char \<Rightarrow> string list \<Rightarrow> string" where
  "wrap gap ind opening closing partial =
     (if gap = [] then opening # join '','' partial @ [closing]
      else opening # CHR 0x0A # (ind @ gap) @ join (CHR '','' # CHR 0x0A # (ind @ gap)) partial
           @ CHR 0x0A # ind @ [closing])"

text \<open>
  \<^verbatim>\<open>SerializeJSONProperty\<close> with the gap and the current indentation. A number that
  is not finite prints as \<^verbatim>\<open>null\<close>.
\<close>

fun stringify :: "string \<Rightarrow> string \<Rightarrow> json \<Rightarrow> string" where
  "stringify gap ind JNull = ''null''"
| "stringify gap ind (JBool b) = (if b then ''true'' else ''false'')"
| "stringify gap ind (JNum x) = (case x of Fin m d \<Rightarrow> Number_toString x | _ \<Rightarrow> ''null'')"
| "stringify gap ind (JStr s) = QuoteJSONString s"
| "stringify gap ind (JArr xs) =
     (if xs = [] then ''[]''
      else wrap gap ind (CHR ''['') (CHR '']'') (map (stringify gap (ind @ gap)) xs))"
| "stringify gap ind (JObj ms) =
     (if ms = [] then ''{}''
      else wrap gap ind (CHR ''{'') (CHR ''}'')
             (map (\<lambda>(k, v). QuoteJSONString k @ (if gap = [] then '':'' else '': '')
                               @ stringify gap (ind @ gap) v) ms))"

text \<open>\<^verbatim>\<open>JSON.stringify(v)\<close> and \<^verbatim>\<open>JSON.stringify(v, null, 2)\<close>.\<close>

definition JSON_stringify :: "json \<Rightarrow> string" where
  "JSON_stringify v = stringify [] [] v"

definition JSON_stringify_indent2 :: "json \<Rightarrow> string" where
  "JSON_stringify_indent2 v = stringify ''  '' [] v"

subsection \<open>JSON.parse\<close>

text \<open>The text is split into tokens, and the tokens are read by a machine with a stack
  of the arrays and objects that are still open.\<close>

datatype token =
  TLBrace | TRBrace | TLBrack | TRBrack | TColon | TComma
| TString string | TNumber number | TTrue | TFalse | TNull

text \<open>JSON white space: space, tab, line feed, carriage return.\<close>

definition is_json_ws :: "char \<Rightarrow> bool" where
  "is_json_ws c = (let n = (of_char c :: nat) in n = 0x20 \<or> n = 0x09 \<or> n = 0x0A \<or> n = 0x0D)"

text \<open>The character after a backslash in a string.\<close>

definition unescape :: "char \<Rightarrow> char option" where
  "unescape e =
     (if e = CHR 0x22 then Some (CHR 0x22)
      else if e = CHR 0x5C then Some (CHR 0x5C)
      else if e = CHR ''/'' then Some (CHR ''/'')
      else if e = CHR ''b'' then Some (CHR 0x08)
      else if e = CHR ''f'' then Some (CHR 0x0C)
      else if e = CHR ''n'' then Some (CHR 0x0A)
      else if e = CHR ''r'' then Some (CHR 0x0D)
      else if e = CHR ''t'' then Some (CHR 0x09)
      else None)"

text \<open>The four hexadecimal digits of a \<^verbatim>\<open>\u\<close> escape, and the characters the escape
  stands for: the code unit itself on the ASCII range, its UTF-8 bytes above.\<close>

definition hex4 :: "string \<Rightarrow> nat option" where
  "hex4 ds =
     (if length ds = 4 \<and> length (radix_prefix 16 ds) = 4
      then Some (radix_value 16 (radix_prefix 16 ds)) else None)"

definition utf8 :: "nat \<Rightarrow> string" where
  "utf8 n =
     (if n < 0x80 then [char_of n]
      else if n < 0x800 then [char_of (0xC0 + n div 64), char_of (0x80 + n mod 64)]
      else [char_of (0xE0 + n div 4096), char_of (0x80 + n div 64 mod 64), char_of (0x80 + n mod 64)])"

text \<open>
  The rest of a string after its opening quote: the characters it denotes and the
  number of characters read, closing quote included. A control character, an unknown
  escape or a missing closing quote is an error.
\<close>

fun lex_string :: "string \<Rightarrow> (string \<times> nat) option" where
  "lex_string [] = None"
| "lex_string (c # cs) =
     (if c = CHR 0x22 then Some ([], 1)
      else if c = CHR 0x5C then
        (case cs of
           [] \<Rightarrow> None
         | e # es \<Rightarrow>
             if e = CHR ''u'' then
               (case hex4 (take 4 es) of
                  None \<Rightarrow> None
                | Some n \<Rightarrow>
                    (case lex_string (drop 4 es) of
                       None \<Rightarrow> None
                     | Some (s, k) \<Rightarrow> Some (utf8 n @ s, k + 6)))
             else
               (case unescape e of
                  None \<Rightarrow> None
                | Some ch \<Rightarrow>
                    (case lex_string es of
                       None \<Rightarrow> None
                     | Some (s, k) \<Rightarrow> Some (ch # s, k + 2))))
      else if (of_char c :: nat) < 0x20 then None
      else (case lex_string cs of None \<Rightarrow> None | Some (s, k) \<Rightarrow> Some (c # s, k + 1)))"

text \<open>The exponent part of a JSON number, with the number of characters read; an
  \<^verbatim>\<open>e\<close> without a digit is an error.\<close>

definition lex_exponent :: "string \<Rightarrow> (int \<times> nat) option" where
  "lex_exponent r =
     (case r of
        [] \<Rightarrow> Some (0, 0)
      | c # cs \<Rightarrow>
          if c = CHR ''e'' \<or> c = CHR ''E'' then
            (let sgn = (cs \<noteq> [] \<and> (hd cs = CHR ''+'' \<or> hd cs = CHR ''-''));
                 neg = (cs \<noteq> [] \<and> hd cs = CHR ''-'');
                 ds = takeWhile is_digit (if sgn then tl cs else cs)
             in if ds = [] then None
                else Some ((if neg then - 1 else 1) * int (radix_value 10 (radix_prefix 10 ds)),
                           1 + (if sgn then 1 else 0) + length ds))
          else Some (0, 0))"

text \<open>
  A JSON number: an optional minus, an integer part without a superfluous leading
  zero, an optional fraction with at least one digit, an optional exponent.
\<close>

definition lex_decimal :: "string \<Rightarrow> (number \<times> nat) option" where
  "lex_decimal input =
     (let neg = (input \<noteq> [] \<and> hd input = CHR ''-'');
          s1 = (if neg then tl input else input);
          I = takeWhile is_digit s1;
          r1 = dropWhile is_digit s1;
          dot = (r1 \<noteq> [] \<and> hd r1 = CHR ''.'');
          F = (if dot then takeWhile is_digit (tl r1) else []);
          r2 = (if dot then dropWhile is_digit (tl r1) else r1)
      in if I = [] \<or> (1 < length I \<and> hd I = CHR ''0'') \<or> (dot \<and> F = []) then None
         else
           (case lex_exponent r2 of
              None \<Rightarrow> None
            | Some (ex, kx) \<Rightarrow>
                (let v = (if neg then - 1 else 1) * int (radix_value 10 (radix_prefix 10 (I @ F)));
                     e = ex - int (length F)
                 in Some (if 0 \<le> e then Number (v * 10 ^ nat e) else norm v (nat (- e)),
                          (if neg then 1 else 0) + length I + (if dot then 1 + length F else 0) + kx))))"

text \<open>
  The number a decimal stands for. A decimal whose magnitude reaches
  \<open>2 ^ 1024 - 2 ^ 970\<close>, half way between the largest finite binary64 number and
  \<open>2 ^ 1024\<close>, is an infinity. Below that bound JavaScript rounds the decimal to the
  nearest binary64 number, which \<^verbatim>\<open>JSON.stringify\<close> prints with the fewest digits that
  read back as the same number; here the decimal keeps its digits.
\<close>

definition overflow_bound :: int where
  "overflow_bound = 2 ^ 1024 - 2 ^ 970"

fun overflow :: "number \<Rightarrow> number" where
  "overflow (Fin m d) =
     (if overflow_bound * 10 ^ d \<le> \<bar>m\<bar> then (if m < 0 then NegInfinity else PosInfinity)
      else Fin m d)"
| "overflow x = x"

definition lex_number :: "string \<Rightarrow> (number \<times> nat) option" where
  "lex_number input =
     (case lex_decimal input of None \<Rightarrow> None | Some (x, k) \<Rightarrow> Some (overflow x, k))"

definition push :: "token \<Rightarrow> token list option \<Rightarrow> token list option" where
  "push t r = map_option ((#) t) r"

fun lex :: "string \<Rightarrow> token list option" where
  "lex [] = Some []"
| "lex (c # cs) =
     (if is_json_ws c then lex cs
      else if c = CHR ''{'' then push TLBrace (lex cs)
      else if c = CHR ''}'' then push TRBrace (lex cs)
      else if c = CHR ''['' then push TLBrack (lex cs)
      else if c = CHR '']'' then push TRBrack (lex cs)
      else if c = CHR '':'' then push TColon (lex cs)
      else if c = CHR '','' then push TComma (lex cs)
      else if c = CHR 0x22 then
        (case lex_string cs of None \<Rightarrow> None | Some (s, k) \<Rightarrow> push (TString s) (lex (drop k cs)))
      else if c = CHR ''-'' \<or> is_digit c then
        (case lex_number (c # cs) of
           None \<Rightarrow> None
         | Some (x, k) \<Rightarrow> push (TNumber x) (lex (drop (k - 1) cs)))
      else if prefix ''true'' (c # cs) then push TTrue (lex (drop 3 cs))
      else if prefix ''false'' (c # cs) then push TFalse (lex (drop 4 cs))
      else if prefix ''null'' (c # cs) then push TNull (lex (drop 3 cs))
      else None)"

datatype frame = FArr "json list" | FObj "(string \<times> json) list" string

datatype pstate =
  Expect "frame list"
| ArrOpen "frame list"
| ArrAfter "json list" "frame list"
| ObjOpen "frame list"
| ObjKey "(string \<times> json) list" "frame list"
| ObjColon "(string \<times> json) list" string "frame list"
| ObjAfter "(string \<times> json) list" "frame list"
| Done json

text \<open>A member read for a key the object already has replaces the earlier value.\<close>

fun obj_put :: "string \<Rightarrow> json \<Rightarrow> (string \<times> json) list \<Rightarrow> (string \<times> json) list" where
  "obj_put k v [] = [(k, v)]"
| "obj_put k v ((k', v') # ms) = (if k' = k then (k, v) # ms else (k', v') # obj_put k v ms)"

text \<open>A finished value goes to the innermost open array or object, or is the result.\<close>

fun deliver :: "json \<Rightarrow> frame list \<Rightarrow> pstate" where
  "deliver v [] = Done v"
| "deliver v (FArr es # st) = ArrAfter (es @ [v]) st"
| "deliver v (FObj ms k # st) = ObjAfter (obj_put k v ms) st"

fun begin_value :: "token \<Rightarrow> frame list \<Rightarrow> pstate option" where
  "begin_value TNull st = Some (deliver JNull st)"
| "begin_value TTrue st = Some (deliver (JBool True) st)"
| "begin_value TFalse st = Some (deliver (JBool False) st)"
| "begin_value (TNumber x) st = Some (deliver (JNum x) st)"
| "begin_value (TString s) st = Some (deliver (JStr s) st)"
| "begin_value TLBrack st = Some (ArrOpen st)"
| "begin_value TLBrace st = Some (ObjOpen st)"
| "begin_value t st = None"

fun step :: "pstate \<Rightarrow> token \<Rightarrow> pstate option" where
  "step (Expect st) t = begin_value t st"
| "step (ArrOpen st) t = (if t = TRBrack then Some (deliver (JArr []) st) else begin_value t (FArr [] # st))"
| "step (ArrAfter es st) t =
     (if t = TComma then Some (Expect (FArr es # st))
      else if t = TRBrack then Some (deliver (JArr es) st) else None)"
| "step (ObjOpen st) t =
     (case t of TRBrace \<Rightarrow> Some (deliver (JObj []) st) | TString k \<Rightarrow> Some (ObjColon [] k st) | _ \<Rightarrow> None)"
| "step (ObjKey ms st) t = (case t of TString k \<Rightarrow> Some (ObjColon ms k st) | _ \<Rightarrow> None)"
| "step (ObjColon ms k st) t = (if t = TColon then Some (Expect (FObj ms k # st)) else None)"
| "step (ObjAfter ms st) t =
     (if t = TComma then Some (ObjKey ms st)
      else if t = TRBrace then Some (deliver (JObj ms) st) else None)"
| "step (Done v) t = None"

fun run :: "pstate \<Rightarrow> token list \<Rightarrow> pstate option" where
  "run s [] = Some s"
| "run s (t # ts) = (case step s t of None \<Rightarrow> None | Some s' \<Rightarrow> run s' ts)"

text \<open>\<^verbatim>\<open>JSON.parse\<close>: \<open>None\<close> is the \<^verbatim>\<open>SyntaxError\<close>.\<close>

definition JSON_parse :: "string \<Rightarrow> json option" where
  "JSON_parse text =
     (case lex text of
        None \<Rightarrow> None
      | Some ts \<Rightarrow> (case run (Expect []) ts of Some (Done v) \<Rightarrow> Some v | _ \<Rightarrow> None))"

subsection \<open>What a text round trip preserves\<close>

text \<open>A finite number in normal form, and a finite number below the bound at which a
  decimal is read as an infinity.\<close>

fun normal :: "number \<Rightarrow> bool" where
  "normal (Fin m d) = (d = 0 \<or> m mod 10 \<noteq> 0)"
| "normal x = False"

fun in_range :: "number \<Rightarrow> bool" where
  "in_range (Fin m d) = (\<bar>m\<bar> < overflow_bound * 10 ^ d)"
| "in_range x = False"

text \<open>A value of JavaScript that \<^verbatim>\<open>JSON.parse\<close> can return or a caller can hand to
  \<^verbatim>\<open>JSON.stringify\<close>: a number is \<open>NaN\<close>, an infinity, or finite, in normal form and
  in range, and no object has a key twice. (\<^verbatim>\<open>JSON.parse\<close> never returns \<open>NaN\<close>.)\<close>

definition parsed_number :: "number \<Rightarrow> bool" where
  "parsed_number x =
     (x = NaN \<or> x = PosInfinity \<or> x = NegInfinity \<or> (normal x \<and> in_range x))"

fun parsed :: "json \<Rightarrow> bool" where
  "parsed (JNum x) = parsed_number x"
| "parsed (JArr xs) = (\<forall>x \<in> set xs. parsed x)"
| "parsed (JObj ms) = (distinct (map fst ms) \<and> (\<forall>m \<in> set ms. parsed (snd m)))"
| "parsed v = True"

text \<open>Such a value with finite numbers only: the values that are read back as they
  were written.\<close>

fun clean :: "json \<Rightarrow> bool" where
  "clean (JNum x) = (normal x \<and> in_range x)"
| "clean (JArr xs) = (\<forall>x \<in> set xs. clean x)"
| "clean (JObj ms) = (distinct (map fst ms) \<and> (\<forall>m \<in> set ms. clean (snd m)))"
| "clean v = True"

text \<open>Every number of the value is finite.\<close>

fun all_finite :: "json \<Rightarrow> bool" where
  "all_finite (JNum x) = isFinite x"
| "all_finite (JArr xs) = (\<forall>x \<in> set xs. all_finite x)"
| "all_finite (JObj ms) = (\<forall>m \<in> set ms. all_finite (snd m))"
| "all_finite v = True"

text \<open>What is read back of a value after \<^verbatim>\<open>JSON.stringify\<close>, which prints a number
  that is not finite as \<^verbatim>\<open>null\<close>.\<close>

fun nullify :: "json \<Rightarrow> json" where
  "nullify (JNum x) = (if isFinite x then JNum x else JNull)"
| "nullify (JArr xs) = JArr (map nullify xs)"
| "nullify (JObj ms) = JObj (map (\<lambda>m. (fst m, nullify (snd m))) ms)"
| "nullify v = v"

text \<open>The tokens of a value.\<close>

fun tokens_of :: "json \<Rightarrow> token list" where
  "tokens_of JNull = [TNull]"
| "tokens_of (JBool b) = [if b then TTrue else TFalse]"
| "tokens_of (JNum x) = [TNumber x]"
| "tokens_of (JStr s) = [TString s]"
| "tokens_of (JArr xs) =
     (case xs of
        [] \<Rightarrow> [TLBrack, TRBrack]
      | y # ys \<Rightarrow> TLBrack # tokens_of y @ concat (map (\<lambda>x. TComma # tokens_of x) ys) @ [TRBrack])"
| "tokens_of (JObj ms) =
     (case ms of
        [] \<Rightarrow> [TLBrace, TRBrace]
      | n # ns \<Rightarrow> TLBrace # TString (fst n) # TColon # tokens_of (snd n)
           @ concat (map (\<lambda>m. TComma # TString (fst m) # TColon # tokens_of (snd m)) ns)
           @ [TRBrace])"

text \<open>What may follow a printed value: the end of the text, a comma, a closing bracket
  or a line feed.\<close>

definition stops :: "string \<Rightarrow> bool" where
  "stops r = (r = [] \<or> hd r \<in> set [CHR '','', CHR '']'', CHR ''}'', CHR 0x0A])"

text \<open>The shape of a number's text: sign, digits of the integer part, digits of the
  fraction, and what follows.\<close>

definition decimal_text :: "bool \<Rightarrow> nat list \<Rightarrow> nat list \<Rightarrow> string \<Rightarrow> string" where
  "decimal_text neg iv fv E =
     (if neg then ''-'' else []) @ map digit_char iv
       @ (if fv = [] then [] else CHR ''.'' # map digit_char fv) @ E"

text \<open>Several tokens put in front of a result of the lexer, and text that consists of JSON
  white space only.\<close>

definition pushes :: "token list \<Rightarrow> token list option \<Rightarrow> token list option" where
  "pushes ts r = map_option ((@) ts) r"

definition white :: "string \<Rightarrow> bool" where
  "white w = (\<forall>c \<in> set w. is_json_ws c)"

text \<open>What the lexer and the machine keep true: a number token and the arrays and
  objects that are still open are as \<^verbatim>\<open>JSON.parse\<close> returns them.\<close>

fun token_ok :: "token \<Rightarrow> bool" where
  "token_ok (TNumber x) = parsed_number x"
| "token_ok t = True"

fun frame_ok :: "frame \<Rightarrow> bool" where
  "frame_ok (FArr es) = parsed (JArr es)"
| "frame_ok (FObj ms k) = parsed (JObj ms)"

fun state_ok :: "pstate \<Rightarrow> bool" where
  "state_ok (Expect st) = (\<forall>f \<in> set st. frame_ok f)"
| "state_ok (ArrOpen st) = (\<forall>f \<in> set st. frame_ok f)"
| "state_ok (ArrAfter es st) = (parsed (JArr es) \<and> (\<forall>f \<in> set st. frame_ok f))"
| "state_ok (ObjOpen st) = (\<forall>f \<in> set st. frame_ok f)"
| "state_ok (ObjKey ms st) = (parsed (JObj ms) \<and> (\<forall>f \<in> set st. frame_ok f))"
| "state_ok (ObjColon ms k st) = (parsed (JObj ms) \<and> (\<forall>f \<in> set st. frame_ok f))"
| "state_ok (ObjAfter ms st) = (parsed (JObj ms) \<and> (\<forall>f \<in> set st. frame_ok f))"
| "state_ok (Done v) = parsed v"

subsection \<open>The slot, export and import\<close>

text \<open>
  The entry of \<^verbatim>\<open>localStorage\<close> under the module's key: its text, if any, and the count
  of the calls of \<^verbatim>\<open>setItem\<close>.
\<close>

record slot =
  content :: "string option"
  setItem_count :: nat

text \<open>\<^verbatim>\<open>getAllItems\<close> on the text: no entry and the empty text give the empty array, and
  so does text that does not parse (the error is caught).\<close>

definition getAllItems_json :: "slot \<Rightarrow> json" where
  "getAllItems_json sl =
     (case content sl of
        None \<Rightarrow> JArr []
      | Some data \<Rightarrow>
          if data = [] then JArr []
          else (case JSON_parse data of None \<Rightarrow> JArr [] | Some items \<Rightarrow> items))"

text \<open>\<^verbatim>\<open>saveAllItems\<close> on the text. The call of \<^verbatim>\<open>setItem\<close> is taken to succeed; one
  that throws (the quota is exceeded) rejects \<^verbatim>\<open>saveAllItems\<close> and is outside this model.\<close>

definition saveAllItems_json :: "json \<Rightarrow> slot \<Rightarrow> slot" where
  "saveAllItems_json items sl =
     sl\<lparr>content := Some (JSON_stringify items), setItem_count := Suc (setItem_count sl)\<rparr>"

definition exportData :: "slot \<Rightarrow> string" where
  "exportData sl = JSON_stringify_indent2 (getAllItems_json sl)"

text \<open>The two ways \<^verbatim>\<open>importData\<close> rejects: \<^verbatim>\<open>JSON.parse\<close> threw, or the value is not
  an array (\<^verbatim>\<open>Invalid data format\<close>).\<close>

datatype import_error = SyntaxError | InvalidDataFormat

fun isArray :: "json \<Rightarrow> bool" where
  "isArray (JArr xs) = True"
| "isArray v = False"

fun array_length :: "json \<Rightarrow> nat" where
  "array_length (JArr xs) = length xs"
| "array_length v = 0"

definition importData :: "string \<Rightarrow> slot \<Rightarrow> (import_error + nat) \<times> slot" where
  "importData jsonString sl =
     (case JSON_parse jsonString of
        None \<Rightarrow> (Inl SyntaxError, sl)
      | Some items \<Rightarrow>
          if \<not> isArray items then (Inl InvalidDataFormat, sl)
          else (Inr (array_length items), saveAllItems_json items sl))"

text \<open>The JSON object of an inventory item, with the keys in the order in which
  \<^verbatim>\<open>addItem\<close> creates them.\<close>

definition json_of_item :: "item \<Rightarrow> json" where
  "json_of_item item =
     JObj [(''id'', JStr (item_id item)),
           (''barcode'', (case barcode item of None \<Rightarrow> JNull | Some b \<Rightarrow> JStr b)),
           (''stockNumber'', JStr (stockNumber item)),
           (''supplier'', JStr (supplier item)),
           (''description'', JStr (description item)),
           (''costPrice'', JNum (costPrice item)),
           (''sellingPrice'', JNum (sellingPrice item)),
           (''quantity'', JNum (quantity item)),
           (''createdAt'', JStr (createdAt item)),
           (''updatedAt'', JStr (updatedAt item))]"

subsection \<open>Properties the specification words\<close>

text \<open>\<open>s\<close> contains \<open>q\<close> as a case-insensitive substring.\<close>

definition contains_ci :: "string \<Rightarrow> string \<Rightarrow> bool" where
  "contains_ci s q = includes_str (toLowerCase s) (toLowerCase q)"

text \<open>The search predicate in the specification's words: the description, the stock
  number, the supplier or a non-null barcode contains \<open>q\<close>, case-insensitively.\<close>

definition spec_match :: "string \<Rightarrow> item \<Rightarrow> bool" where
  "spec_match q item =
     (contains_ci (description item) q \<or>
      contains_ci (stockNumber item) q \<or>
      contains_ci (supplier item) q \<or>
      (case barcode item of None \<Rightarrow> False | Some b \<Rightarrow> contains_ci b q))"


subsection \<open>Example data\<close>

text \<open>The item of the specification's scenarios, and a second item whose description
  contains the first one's barcode.\<close>

definition widget :: item where
  "widget = \<lparr>item_id = ''item_a'', barcode = Some ''123'', stockNumber = ''SN1'',
     supplier = ''Acme'', description = ''Widget'', costPrice = Number 2,
     sellingPrice = Number 5, quantity = Number 10,
     createdAt = ''2024-01-01T00:00:00.000Z'', updatedAt = ''2024-01-01T00:00:00.000Z''\<rparr>"

definition gadget :: item where
  "gadget = \<lparr>item_id = ''item_b'', barcode = None, stockNumber = ''SN2'',
     supplier = ''Bolt'', description = ''Gadget 123 blue'', costPrice = Number 1,
     sellingPrice = Number 3, quantity = Number 4,
     createdAt = ''2024-01-01T00:00:00.000Z'', updatedAt = ''2024-01-01T00:00:00.000Z''\<rparr>"

definition shop :: storage where
  "shop = \<lparr>stored = [gadget, widget], setItem_calls = 0\<rparr>"



text \<open>An empty slot, and the slot after the two example items were saved.\<close>

definition empty_slot :: slot where
  "empty_slot = \<lparr>content = None, setItem_count = 0\<rparr>"

definition stocked :: slot where
  "stocked = saveAllItems_json (JArr (map json_of_item [gadget, widget])) empty_slot"

text \<open>A slot that holds other data and was written three times, and a record whose
  quantity is \<open>-5\<close>.\<close>

definition used_slot :: slot where
  "used_slot = \<lparr>content = Some ''[1]'', setItem_count = 3\<rparr>"


section \<open>Properties of the repository\<close>

subsection \<open>Finding an item\<close>

lemma findIndex_range: "- 1 \<le> findIndex p xs \<and> findIndex p xs < int (length xs)"
  by (induction xs) (auto simp: Let_def)

lemma findIndex_none: "(findIndex p xs = - 1) = (\<forall>x \<in> set xs. \<not> p x)"
proof (induction xs)
  case Nil
  then show ?case by simp
next
  case (Cons x xs)
  have "- 1 \<le> findIndex p xs" using findIndex_range [of p xs] by simp
  with Cons show ?case by (auto simp: Let_def)
qed

lemma findIndex_hit: "findIndex p xs \<noteq> - 1 \<Longrightarrow> p (xs ! nat (findIndex p xs))"
proof (induction xs)
  case Nil
  then show ?case by simp
next
  case (Cons x xs)
  have r: "- 1 \<le> findIndex p xs" using findIndex_range [of p xs] by simp
  show ?case
  proof (cases "p x")
    case True
    then show ?thesis by simp
  next
    case False
    with Cons.prems have ne: "findIndex p xs \<noteq> - 1" by (auto simp: Let_def split: if_splits)
    with r have "0 \<le> findIndex p xs" by arith
    then have "nat (findIndex p xs + 1) = Suc (nat (findIndex p xs))" by arith
    with False ne Cons.IH show ?thesis by (simp add: Let_def)
  qed
qed

lemma find_findIndex:
  "find p xs = (if findIndex p xs = - 1 then None else Some (xs ! nat (findIndex p xs)))"
proof (induction xs)
  case Nil
  then show ?case by simp
next
  case (Cons x xs)
  have r: "- 1 \<le> findIndex p xs" using findIndex_range [of p xs] by simp
  show ?case
  proof (cases "p x")
    case True
    then show ?thesis by simp
  next
    case False
    show ?thesis
    proof (cases "findIndex p xs = - 1")
      case True
      with False Cons.IH show ?thesis by (simp add: Let_def)
    next
      case ne: False
      with r have "0 \<le> findIndex p xs" by arith
      then have "nat (findIndex p xs + 1) = Suc (nat (findIndex p xs))" by arith
      with False ne Cons.IH show ?thesis by (simp add: Let_def)
    qed
  qed
qed

lemma findIndex_bound: "findIndex p xs \<noteq> - 1 \<Longrightarrow> nat (findIndex p xs) < length xs"
  using findIndex_range [of p xs] by arith

lemma find_Some_first: "x \<in> set xs \<Longrightarrow> p x \<Longrightarrow> \<exists>y. find p xs = Some y \<and> y \<in> set xs \<and> p y"
  by (induction xs) auto

lemma find_None_iff': "(find p xs = None) = (\<forall>x \<in> set xs. \<not> p x)"
  by (induction xs) auto

lemma find_update_first:
  "findIndex p xs \<noteq> - 1 \<Longrightarrow> p y \<Longrightarrow> find p (xs[nat (findIndex p xs) := y]) = Some y"
proof (induction xs)
  case Nil
  then show ?case by simp
next
  case (Cons x xs)
  have r: "- 1 \<le> findIndex p xs" using findIndex_range [of p xs] by simp
  show ?case
  proof (cases "p x")
    case True
    with Cons.prems show ?thesis by simp
  next
    case False
    with Cons.prems have ne: "findIndex p xs \<noteq> - 1" by (auto simp: Let_def split: if_splits)
    with r have "0 \<le> findIndex p xs" by arith
    then have "nat (findIndex p xs + 1) = Suc (nat (findIndex p xs))" by arith
    with False ne Cons.IH Cons.prems show ?thesis by (simp add: Let_def)
  qed
qed

subsection \<open>Numbers and their decimal strings\<close>

lemma dec_digits_lt10: "v \<in> set (dec_digits n) \<Longrightarrow> v < 10"
proof (induction n arbitrary: v rule: dec_digits.induct)
  case (1 n)
  show ?case
  proof (cases "n < 10")
    case True
    with "1.prems" show ?thesis by (simp add: dec_digits.simps [of n])
  next
    case False
    with "1.prems" have "v \<in> set (dec_digits (n div 10)) \<or> v = n mod 10"
      by (auto simp: dec_digits.simps [of n])
    with False "1.IH" show ?thesis by auto
  qed
qed

lemma dec_digits_nonempty: "dec_digits n \<noteq> []"
  by (simp add: dec_digits.simps [of n])

lemma radix_value_snoc: "radix_value R (vs @ [v]) = radix_value R vs * R + v"
  by (simp add: radix_value_def)

lemma radix_value_dec_digits: "radix_value 10 (dec_digits n) = n"
proof (induction n rule: dec_digits.induct)
  case (1 n)
  show ?case
  proof (cases "n < 10")
    case True
    then show ?thesis by (simp add: dec_digits.simps [of n] radix_value_def)
  next
    case False
    with "1.IH" show ?thesis by (simp add: dec_digits.simps [of n] radix_value_snoc)
  qed
qed

lemma length_dec_digits_upper: "n < 10 ^ length (dec_digits n)"
proof (induction n rule: dec_digits.induct)
  case (1 n)
  show ?case
  proof (cases "n < 10")
    case True
    then show ?thesis by (simp add: dec_digits.simps [of n])
  next
    case False
    with "1.IH" have "n div 10 < 10 ^ length (dec_digits (n div 10))" by simp
    then have "n < 10 * 10 ^ length (dec_digits (n div 10))" by simp
    with False show ?thesis by (simp add: dec_digits.simps [of n])
  qed
qed

lemma length_dec_digits_lower: "0 < n \<Longrightarrow> 10 ^ (length (dec_digits n) - 1) \<le> n"
proof (induction n rule: dec_digits.induct)
  case (1 n)
  show ?case
  proof (cases "n < 10")
    case True
    with "1.prems" show ?thesis by (simp add: dec_digits.simps [of n])
  next
    case False
    then have "0 < n div 10" by simp
    with False "1.IH" have "10 ^ (length (dec_digits (n div 10)) - 1) \<le> n div 10" by simp
    then have "10 * 10 ^ (length (dec_digits (n div 10)) - 1) \<le> n" by simp
    moreover have "length (dec_digits (n div 10)) \<noteq> 0" using dec_digits_nonempty by simp
    ultimately have "10 ^ length (dec_digits (n div 10)) \<le> n"
      by (cases "length (dec_digits (n div 10))") simp_all
    with False show ?thesis by (simp add: dec_digits.simps [of n])
  qed
qed

lemma length_dec_digits_le: "n < 10 ^ k \<Longrightarrow> 0 < k \<Longrightarrow> length (dec_digits n) \<le> k"
proof (cases "n = 0")
  case True
  assume "0 < k"
  with True show ?thesis by (simp add: dec_digits.simps [of 0])
next
  case False
  assume a: "n < 10 ^ k"
  from False have "(10::nat) ^ (length (dec_digits n) - 1) \<le> n" using length_dec_digits_lower by simp
  from this a have "(10::nat) ^ (length (dec_digits n) - 1) < 10 ^ k" by (rule le_less_trans)
  then have "length (dec_digits n) - 1 < k" by simp
  then show ?thesis by simp
qed

lemma length_dec_digits_gt: "10 ^ j \<le> n \<Longrightarrow> j < length (dec_digits n)"
proof -
  assume "10 ^ j \<le> n"
  from this length_dec_digits_upper [of n] have "(10::nat) ^ j < 10 ^ length (dec_digits n)"
    by (rule le_less_trans)
  then show ?thesis by simp
qed

lemma radix_value_take_dec_digits:
  "j \<le> length (dec_digits n) \<Longrightarrow>
     radix_value 10 (take j (dec_digits n)) = n div 10 ^ (length (dec_digits n) - j)"
proof (induction n arbitrary: j rule: dec_digits.induct)
  case (1 n)
  show ?case
  proof (cases "n < 10")
    case True
    with "1.prems" have "j = 0 \<or> j = 1" by (auto simp: dec_digits.simps [of n])
    with True show ?thesis by (auto simp: dec_digits.simps [of n] radix_value_def)
  next
    case False
    let ?L = "length (dec_digits (n div 10))"
    have len: "length (dec_digits n) = Suc ?L" using False by (simp add: dec_digits.simps [of n])
    show ?thesis
    proof (cases "j \<le> ?L")
      case True
      with False "1.IH" have "radix_value 10 (take j (dec_digits (n div 10))) = (n div 10) div 10 ^ (?L - j)"
        by simp
      moreover have "(n div 10) div 10 ^ (?L - j) = n div 10 ^ (Suc ?L - j)"
        using True by (simp add: div_mult2_eq Suc_diff_le)
      ultimately show ?thesis using True False len by (simp add: dec_digits.simps [of n])
    next
      case F: False
      with "1.prems" len have "j = Suc ?L" by simp
      then have "take j (dec_digits n) = dec_digits n" using len by simp
      with \<open>j = Suc ?L\<close> len show ?thesis by (simp add: radix_value_dec_digits)
    qed
  qed
qed

lemma strip_zeros_value: "strip_zeros m = (s, z) \<Longrightarrow> m = s * 10 ^ z"
proof (induction m arbitrary: s z rule: strip_zeros.induct)
  case (1 m)
  show ?case
  proof (cases "m = 0 \<or> m mod 10 \<noteq> 0")
    case True
    with "1.prems" show ?thesis by (auto simp: strip_zeros.simps [of m])
  next
    case False
    obtain s' z' where sz: "strip_zeros (m div 10) = (s', z')" by (cases "strip_zeros (m div 10)")
    with False "1.prems" have e: "s = s'" "z = Suc z'" by (auto simp: strip_zeros.simps [of m])
    from False sz "1.IH" have "m div 10 = s' * 10 ^ z'" by blast
    moreover from False have "m = 10 * (m div 10)" by auto
    ultimately show ?thesis using e by simp
  qed
qed

lemma strip_zeros_pos: "strip_zeros m = (s, z) \<Longrightarrow> 0 < m \<Longrightarrow> 0 < s"
  using strip_zeros_value [of m s z] by (cases "s = 0") auto

lemma strip_zeros_odd: "m mod 10 \<noteq> 0 \<Longrightarrow> strip_zeros m = (m, 0)"
  by (simp add: strip_zeros.simps [of m])

lemma dec_digits_times10: "0 < s \<Longrightarrow> dec_digits (s * 10) = dec_digits s @ [0]"
  by (simp add: dec_digits.simps [of "s * 10"])

lemma dec_digits_shift: "0 < s \<Longrightarrow> dec_digits (s * 10 ^ z) = dec_digits s @ replicate z 0"
proof (induction z)
  case 0
  then show ?case by simp
next
  case (Suc z)
  then have pos: "0 < s * 10 ^ z" by simp
  have e: "s * 10 ^ Suc z = (s * 10 ^ z) * 10" by simp
  have "dec_digits (s * 10 ^ Suc z) = dec_digits (s * 10 ^ z) @ [0]"
    unfolding e using pos by (rule dec_digits_times10)
  with Suc show ?case by (simp add: replicate_append_same)
qed

lemma lt10_cases:
  "v < 10 \<Longrightarrow> v = 0 \<or> v = 1 \<or> v = 2 \<or> v = 3 \<or> v = 4 \<or> v = 5 \<or> v = 6 \<or> v = 7 \<or> v = 8 \<or> v = (9::nat)"
  by arith

lemma digit_char_facts:
  assumes "v < 10"
  shows "digit_val (digit_char v) = Some v" and "\<not> is_space (digit_char v)"
    and "digit_char v \<noteq> CHR ''-''" and "digit_char v \<noteq> CHR ''+''"
    and "digit_char v \<noteq> CHR ''x''" and "digit_char v \<noteq> CHR ''X''"
  using lt10_cases [OF assms]
  by (auto simp: digit_char_def digit_val_def is_space_def)

lemma radix_prefix_digits:
  "\<forall>v \<in> set vs. v < 10 \<Longrightarrow> radix_prefix 10 (map digit_char vs @ r) = vs @ radix_prefix 10 r"
  by (induction vs) (simp_all add: digit_char_facts)

lemma radix_prefix_stop:
  "radix_prefix 10 [] = []" "radix_prefix 10 (CHR ''.'' # r) = []" "radix_prefix 10 (CHR ''e'' # r) = []"
  by (simp_all add: digit_val_def)

lemma take_radix_digits:
  assumes "v < 10" and "r = [] \<or> hd r \<noteq> CHR ''x'' \<and> hd r \<noteq> CHR ''X''"
  shows "take_radix (digit_char v # r) = (10, digit_char v # r)"
  using assms by (cases r) auto

lemma parseInt_string_digits:
  assumes "vs \<noteq> []" and "\<forall>v \<in> set vs. v < 10"
    and "r = [] \<or> hd r = CHR ''.'' \<or> hd r = CHR ''e''"
  shows "parseInt_string (map digit_char vs @ r) = Number (int (radix_value 10 vs))"
proof -
  obtain v vs' where vs: "vs = v # vs'" using assms(1) by (cases vs) auto
  with assms(2) have v: "v < 10" and rest: "\<forall>v \<in> set vs'. v < 10" by auto
  let ?s = "digit_char v # (map digit_char vs' @ r)"
  have s: "map digit_char vs @ r = ?s" using vs by simp
  have sp: "dropWhile is_space ?s = ?s" using v by (simp add: digit_char_facts)
  have sg: "take_sign ?s = (False, ?s)" using v by (simp add: digit_char_facts)
  have hd2: "map digit_char vs' @ r = [] \<or>
    hd (map digit_char vs' @ r) \<noteq> CHR ''x'' \<and> hd (map digit_char vs' @ r) \<noteq> CHR ''X''"
  proof (cases vs')
    case Nil
    with assms(3) show ?thesis by auto
  next
    case (Cons w ws)
    with rest have "w < 10" by simp
    with Cons show ?thesis by (simp add: digit_char_facts)
  qed
  have rd: "take_radix ?s = (10, ?s)" using v hd2 by (rule take_radix_digits)
  have "radix_prefix 10 r = []" using assms(3) by (cases r) (auto simp: digit_val_def)
  then have Z: "radix_prefix 10 (map digit_char vs @ r) = vs"
    using radix_prefix_digits [OF assms(2), of r] by simp
  show ?thesis
    unfolding parseInt_string_def s sp sg using rd Z [unfolded s] assms(1) by simp
qed

lemma Number_toString_pos_int:
  assumes "0 < q" and "q < 10 ^ 21"
  shows "Number_toString (Number q) = digits_of (nat q)"
proof -
  obtain s z where sz: "strip_zeros (nat \<bar>q\<bar>) = (s, z)" by (cases "strip_zeros (nat \<bar>q\<bar>)")
  have q: "nat \<bar>q\<bar> = nat q" using assms by simp
  have val: "nat q = s * 10 ^ z" using strip_zeros_value [OF sz] q by simp
  have pos: "0 < s" using strip_zeros_pos [OF sz] assms q by simp
  have dig: "dec_digits (nat q) = dec_digits s @ replicate z 0"
    unfolding val using pos by (rule dec_digits_shift)
  have "nat q < 10 ^ 21" using assms by (simp add: nat_less_iff)
  then have "length (dec_digits (nat q)) \<le> 21" by (rule length_dec_digits_le) simp
  with dig have len: "length (dec_digits s) + z \<le> 21" by simp
  have "digits_of (nat q) = digits_of s @ replicate z (CHR ''0'')"
    by (simp add: digits_of_def dig digit_char_def)
  with assms sz len show ?thesis
    by (simp add: Number_toString_def digits_of_def)
qed

lemma parseInt_Number:
  assumes "0 \<le> q" and "q < 10 ^ 21"
  shows "parseInt (Num (Number q)) = Number q"
proof (cases "q = 0")
  case True
  then show ?thesis
    by (simp add: parseInt_def parseInt_string_def Number_toString_def is_space_def
      digit_val_def radix_value_def)
next
  case False
  with assms have pos: "0 < q" by simp
  have "parseInt_string (map digit_char (dec_digits (nat q)) @ []) =
      Number (int (radix_value 10 (dec_digits (nat q))))"
    by (rule parseInt_string_digits) (auto simp: dec_digits_nonempty dec_digits_lt10)
  with pos assms show ?thesis
    by (simp add: parseInt_def Number_toString_pos_int digits_of_def radix_value_dec_digits)
qed

lemma int_div_less_bound:
  fixes m K :: int
  assumes "m div 10 ^ d < K"
  shows "m < K * 10 ^ d"
proof -
  have "m = 10 ^ d * (m div 10 ^ d) + m mod 10 ^ d" by simp
  moreover have "m mod 10 ^ d < 10 ^ d" by simp
  moreover have "m div 10 ^ d + 1 \<le> K" using assms by simp
  then have "10 ^ d * (m div 10 ^ d + 1) \<le> (10::int) ^ d * K"
    by (rule mult_left_mono) simp
  then have "10 ^ d * (m div 10 ^ d) + 10 ^ d \<le> K * 10 ^ d"
    by (simp add: distrib_left mult.commute)
  ultimately show ?thesis by linarith
qed

lemma length_digits_of: "length (digits_of n) = length (dec_digits n)"
  by (simp add: digits_of_def)

lemma Number_toString_fraction:
  assumes "0 < d" and "0 < m" and "m mod 10 \<noteq> 0" and "10 ^ d \<le> m" and "m div 10 ^ d < 10 ^ 21"
  shows "\<exists>r. Number_toString (Fin m d) =
           map digit_char (take (length (dec_digits (nat m)) - d) (dec_digits (nat m))) @ CHR ''.'' # r
         \<and> d < length (dec_digits (nat m))"
proof -
  let ?a = "nat m"
  let ?ds = "dec_digits ?a"
  have a: "nat \<bar>m\<bar> = ?a" using assms by simp
  have "int (?a mod 10) = m mod 10" using assms by (simp add: zmod_int)
  with assms have "?a mod 10 \<noteq> 0" by auto
  then have sz: "strip_zeros (nat \<bar>m\<bar>) = (?a, 0)" unfolding a by (rule strip_zeros_odd)
  have "(10::nat) ^ d \<le> ?a" using assms by (simp add: le_nat_iff)
  then have gt: "d < length ?ds" by (rule length_dec_digits_gt)
  have "m < 10 ^ 21 * 10 ^ d" using assms(5) by (rule int_div_less_bound)
  then have "?a < 10 ^ (21 + d)" using assms by (simp add: nat_less_iff power_add)
  then have le: "length ?ds \<le> 21 + d" by (rule length_dec_digits_le) simp
  have k: "\<not> (int (length ?ds) \<le> int (length ?ds) + int 0 - int d \<and>
      int (length ?ds) + int 0 - int d \<le> 21)"
    using assms(1) by simp
  have n1: "0 < int (length ?ds) + int 0 - int d \<and> int (length ?ds) + int 0 - int d \<le> 21"
    using gt le by simp
  have nn: "nat (int (length ?ds) - int d) = length ?ds - d" by simp
  have "Number_toString (Fin m d) =
      map digit_char (take (length ?ds - d) ?ds) @ CHR ''.'' # map digit_char (drop (length ?ds - d) ?ds)"
    using assms(2) sz k n1 nn
    by (simp add: Number_toString_def Let_def digits_of_def take_map drop_map)
  with gt show ?thesis by blast
qed

lemma parseInt_fraction:
  assumes "0 < d" and "0 < m" and "m mod 10 \<noteq> 0" and "10 ^ d \<le> m" and "m div 10 ^ d < 10 ^ 21"
  shows "parseInt (Num (Fin m d)) = Number (m div 10 ^ d)"
proof -
  let ?ds = "dec_digits (nat m)"
  let ?n = "length ?ds - d"
  from Number_toString_fraction [OF assms] obtain r where
    str: "Number_toString (Fin m d) = map digit_char (take ?n ?ds) @ CHR ''.'' # r"
    and gt: "d < length ?ds" by blast
  have ne: "take ?n ?ds \<noteq> []" using gt by (simp add: dec_digits_nonempty)
  have lt: "\<forall>v \<in> set (take ?n ?ds). v < 10" using dec_digits_lt10 by (auto dest: in_set_takeD)
  have "parseInt_string (map digit_char (take ?n ?ds) @ CHR ''.'' # r) =
      Number (int (radix_value 10 (take ?n ?ds)))"
    using ne lt by (rule parseInt_string_digits) simp
  moreover have "radix_value 10 (take ?n ?ds) = nat m div 10 ^ (length ?ds - ?n)"
    by (rule radix_value_take_dec_digits) simp
  moreover have "length ?ds - ?n = d" using gt by simp
  moreover have "int (nat m div 10 ^ d) = m div 10 ^ d"
    using assms(2) by (simp add: zdiv_int)
  ultimately show ?thesis by (simp add: parseInt_def str)
qed

lemma Number_toString_small:
  assumes "0 < d" and "0 < m" and "m mod 10 \<noteq> 0" and "m < 10 ^ d" and "10 ^ d \<le> m * 10 ^ 6"
  shows "\<exists>r. Number_toString (Fin m d) = CHR ''0'' # CHR ''.'' # r"
proof -
  let ?a = "nat m"
  let ?ds = "dec_digits ?a"
  have a: "nat \<bar>m\<bar> = ?a" using assms by simp
  have "int (?a mod 10) = m mod 10" using assms by (simp add: zmod_int)
  with assms have "?a mod 10 \<noteq> 0" by auto
  then have sz: "strip_zeros (nat \<bar>m\<bar>) = (?a, 0)" unfolding a by (rule strip_zeros_odd)
  have "?a < 10 ^ d" using assms by (simp add: nat_less_iff)
  then have le: "length ?ds \<le> d" using assms(1) by (rule length_dec_digits_le)
  have gt: "d < length ?ds + 6"
  proof (cases "d < 6")
    case True
    then show ?thesis by simp
  next
    case False
    then have d: "d = (d - 6) + 6" by simp
    have "(10::int) ^ d = 10 ^ (d - 6) * 10 ^ 6" by (subst d) (simp only: power_add)
    with assms have "10 ^ (d - 6) * (10::int) ^ 6 \<le> m * 10 ^ 6" by simp
    then have "10 ^ (d - 6) \<le> m" by simp
    then have "(10::nat) ^ (d - 6) \<le> ?a" using assms by (simp add: le_nat_iff)
    then have "d - 6 < length ?ds" by (rule length_dec_digits_gt)
    then show ?thesis by simp
  qed
  have k: "\<not> (int (length ?ds) \<le> int (length ?ds) + int 0 - int d \<and> int (length ?ds) + int 0 - int d \<le> 21)"
    using assms(1) by simp
  have n0: "\<not> (0 < int (length ?ds) + int 0 - int d \<and> int (length ?ds) + int 0 - int d \<le> 21)"
    using le by simp
  have n1: "- 6 < int (length ?ds) + int 0 - int d \<and> int (length ?ds) + int 0 - int d \<le> 0"
    using le gt by simp
  show ?thesis
    using assms(2) sz k n0 n1
    by (simp add: Number_toString_def Let_def length_digits_of)
qed

lemma parseInt_small:
  assumes "0 < d" and "0 < m" and "m mod 10 \<noteq> 0" and "m < 10 ^ d" and "10 ^ d \<le> m * 10 ^ 6"
  shows "parseInt (Num (Fin m d)) = Number 0"
proof -
  from Number_toString_small [OF assms] obtain r where
    str: "Number_toString (Fin m d) = CHR ''0'' # CHR ''.'' # r" by blast
  have "parseInt_string (map digit_char [0] @ CHR ''.'' # r) = Number (int (radix_value 10 [0]))"
    by (rule parseInt_string_digits) simp_all
  then show ?thesis by (simp add: parseInt_def str digit_char_def radix_value_def)
qed

lemma parseInt_negative:
  assumes "m < 0"
  shows "parseInt (Num (Fin m d)) = NaN \<or> (\<exists>v. parseInt (Num (Fin m d)) = Number (- int v))"
proof -
  from assms have "\<exists>body. Number_toString (Fin m d) = CHR ''-'' # body"
    by (cases "strip_zeros (nat \<bar>m\<bar>)") (simp add: Number_toString_def Let_def)
  then obtain body where "Number_toString (Fin m d) = CHR ''-'' # body" by blast
  then show ?thesis
    by (auto simp: parseInt_def parseInt_string_def is_space_def Let_def split: prod.splits)
qed





subsection \<open>The outcome of removing stock\<close>

lemma removeStock_missing:
  "getItemById ident st = None \<Longrightarrow> removeStock ident qty now st = (NotFound, st)"
  by (simp add: removeStock_def getItemById_def find_findIndex Let_def split: if_splits)

lemma removeStock_found:
  assumes "getItemById ident st = Some item"
  shows "removeStock ident qty now st =
     (let removeQty = num_or (parseInt qty) (Number 0) in
      if num_le removeQty (Number 0) then (InvalidQuantity, st)
      else if num_lt (quantity item) removeQty then (InsufficientStock (quantity item), st)
      else
        (let item' = item\<lparr>quantity := num_sub (quantity item) removeQty, updatedAt := now\<rparr>
         in (Success item' removeQty,
             saveAllItems
               ((getAllItems st)[nat (findIndex (\<lambda>i. item_id i = ident) (getAllItems st)) := item'])
               st)))"
proof -
  from assms have ne: "findIndex (\<lambda>i. item_id i = ident) (getAllItems st) \<noteq> - 1"
    and it: "item = getAllItems st ! nat (findIndex (\<lambda>i. item_id i = ident) (getAllItems st))"
    by (auto simp: getItemById_def find_findIndex split: if_splits)
  from ne have "nat (findIndex (\<lambda>i. item_id i = ident) (getAllItems st)) < length (getAllItems st)"
    by (rule findIndex_bound)
  with ne it show ?thesis by (simp add: removeStock_def Let_def)
qed

lemma getItemById_saved:
  assumes "getItemById ident st = Some item" and "item_id item' = item_id item"
  shows "getItemById ident
     (saveAllItems ((getAllItems st)[nat (findIndex (\<lambda>i. item_id i = ident) (getAllItems st)) := item']) st)
     = Some item'"
proof -
  from assms(1) have ne: "findIndex (\<lambda>i. item_id i = ident) (getAllItems st) \<noteq> - 1"
    and it: "item = getAllItems st ! nat (findIndex (\<lambda>i. item_id i = ident) (getAllItems st))"
    by (auto simp: getItemById_def find_findIndex split: if_splits)
  from ne have "item_id item = ident" unfolding it by (rule findIndex_hit)
  with assms(2) have "item_id item' = ident" by simp
  with ne have "find (\<lambda>i. item_id i = ident)
      ((getAllItems st)[nat (findIndex (\<lambda>i. item_id i = ident) (getAllItems st)) := item']) = Some item'"
    by (rule find_update_first)
  then show ?thesis by (simp add: getItemById_def getAllItems_def saveAllItems_def)
qed

text \<open>
  Claim C1. \<^verbatim>\<open>removeStock(id, q)\<close> decides in this order: no item with the id gives
  \<open>NotFound\<close>; a quantity that parses (\<^verbatim>\<open>parseInt(q) || 0\<close>) to a value \<open>\<le> 0\<close> gives
  \<open>InvalidQuantity\<close>; a parsed quantity above the item's quantity gives
  \<open>InsufficientStock\<close> with the available quantity; otherwise the quantity of the first
  item with the id is decremented by the parsed quantity, \<open>updatedAt\<close> is set to the
  clock reading, the collection is saved, and the outcome is \<open>Success\<close> with the updated
  item and the removed amount.
\<close>

theorem removeStock_outcome:
  "removeStock ident qty now st =
     (let removeQty = num_or (parseInt qty) (Number 0) in
      case getItemById ident st of
        None \<Rightarrow> (NotFound, st)
      | Some item \<Rightarrow>
          if num_le removeQty (Number 0) then (InvalidQuantity, st)
          else if num_lt (quantity item) removeQty then (InsufficientStock (quantity item), st)
          else
            (let item' = item\<lparr>quantity := num_sub (quantity item) removeQty, updatedAt := now\<rparr>
             in (Success item' removeQty,
                 saveAllItems
                   ((getAllItems st)[nat (findIndex (\<lambda>i. item_id i = ident) (getAllItems st)) := item'])
                   st)))"
proof (cases "findIndex (\<lambda>i. item_id i = ident) (getAllItems st) = - 1")
  case True
  then show ?thesis
    by (simp add: removeStock_def getItemById_def find_findIndex Let_def)
next
  case False
  then have "nat (findIndex (\<lambda>i. item_id i = ident) (getAllItems st)) < length (getAllItems st)"
    by (rule findIndex_bound)
  with False show ?thesis
    by (simp add: removeStock_def getItemById_def find_findIndex Let_def)
qed

theorem removeStock_outcome_witness:
  "removeStock ''item_a'' (Num (Number 3)) ''2024-02-02T00:00:00.000Z'' shop =
     (Success (widget\<lparr>quantity := Number 7, updatedAt := ''2024-02-02T00:00:00.000Z''\<rparr>) (Number 3),
      \<lparr>stored = [gadget, widget\<lparr>quantity := Number 7, updatedAt := ''2024-02-02T00:00:00.000Z''\<rparr>],
       setItem_calls = 1\<rparr>) \<and>
   removeStock ''item_a'' (Num (Number 100)) ''2024-02-02T00:00:00.000Z'' shop =
     (InsufficientStock (Number 10), shop) \<and>
   removeStock ''item_a'' (Str ''0'') ''2024-02-02T00:00:00.000Z'' shop = (InvalidQuantity, shop) \<and>
   removeStock ''item_z'' (Num (Number 3)) ''2024-02-02T00:00:00.000Z'' shop = (NotFound, shop)"
  by (simp only: removeStock_outcome) code_simp

lemma removeStock_no_write:
  assumes "removeStock ident qty now st = (r, st')"
    and "\<forall>item removed. r \<noteq> Success item removed"
  shows "st' = st"
  using assms
  by (auto simp: removeStock_def Let_def split: if_splits)

text \<open>
  Claim C5. A call of \<^verbatim>\<open>removeStock\<close> whose outcome is not \<open>Success\<close> leaves the store
  as it was: the collection, every field of every item in it, is the same and nothing
  was written. In particular a request above the item's quantity is answered with
  \<open>InsufficientStock\<close> and changes nothing.
\<close>

theorem removeStock_failure_unchanged:
  "(removeStock ident qty now st = (r, st') \<and> (\<forall>item removed. r \<noteq> Success item removed) \<longrightarrow>
      st' = st \<and> getAllItems st' = getAllItems st \<and> setItem_calls st' = setItem_calls st) \<and>
   (getItemById ident st = Some item \<and>
    \<not> num_le (num_or (parseInt qty) (Number 0)) (Number 0) \<and>
    num_lt (quantity item) (num_or (parseInt qty) (Number 0)) \<longrightarrow>
      removeStock ident qty now st = (InsufficientStock (quantity item), st))"
proof -
  have a: "removeStock ident qty now st = (r, st') \<and> (\<forall>item removed. r \<noteq> Success item removed) \<longrightarrow>
      st' = st \<and> getAllItems st' = getAllItems st \<and> setItem_calls st' = setItem_calls st"
    using removeStock_no_write [of ident qty now st r st'] by auto
  have b: "getItemById ident st = Some item \<and>
    \<not> num_le (num_or (parseInt qty) (Number 0)) (Number 0) \<and>
    num_lt (quantity item) (num_or (parseInt qty) (Number 0)) \<longrightarrow>
      removeStock ident qty now st = (InsufficientStock (quantity item), st)"
    by (auto simp: removeStock_def getItemById_def find_findIndex Let_def split: if_splits)
  from a b show ?thesis by (rule conjI)
qed

theorem removeStock_failure_unchanged_witness:
  "removeStock ''item_a'' (Num (Number 100)) ''2024-02-02T00:00:00.000Z'' shop =
     (InsufficientStock (Number 10), shop) \<and>
   getAllItems (snd (removeStock ''item_z'' (Num (Number 1)) ''2024-02-02T00:00:00.000Z'' shop))
     = getAllItems shop"
proof -
  have g: "getItemById ''item_a'' shop = Some widget \<and>
    \<not> num_le (num_or (parseInt (Num (Number 100))) (Number 0)) (Number 0) \<and>
    num_lt (quantity widget) (num_or (parseInt (Num (Number 100))) (Number 0))"
    by code_simp
  have q: "quantity widget = Number 10" by (simp add: widget_def)
  have run: "removeStock ''item_z'' (Num (Number 1)) ''2024-02-02T00:00:00.000Z'' shop =
     (NotFound, snd (removeStock ''item_z'' (Num (Number 1)) ''2024-02-02T00:00:00.000Z'' shop))"
    by code_simp
  have ns: "\<forall>item removed. NotFound \<noteq> Success item removed" by simp
  from g q run ns
    removeStock_failure_unchanged [of "''item_a''" "Num (Number 100)"
      "''2024-02-02T00:00:00.000Z''" shop NotFound shop widget]
    removeStock_failure_unchanged [of "''item_z''" "Num (Number 1)"
      "''2024-02-02T00:00:00.000Z''" shop NotFound
      "snd (removeStock ''item_z'' (Num (Number 1)) ''2024-02-02T00:00:00.000Z'' shop)" widget]
  show ?thesis by simp
qed

text \<open>
  Claim C4, as stated: a successful removal leaves \<open>updatedAt\<close> strictly greater than
  it was. It fails when the clock reads what the item already holds (two calls within
  one millisecond, or a stored time stamp that is not in the past): the new time stamp
  is the clock reading, whatever the old one was.
\<close>

theorem removeStock_updatedAt_counterexample:
  "removeStock ''item_a'' (Num (Number 3)) ''2024-01-01T00:00:00.000Z'' shop =
     (Success (widget\<lparr>quantity := Number 7\<rparr>) (Number 3),
      \<lparr>stored = [gadget, widget\<lparr>quantity := Number 7\<rparr>], setItem_calls = 1\<rparr>) \<and>
   \<not> (updatedAt widget < updatedAt (widget\<lparr>quantity := Number 7\<rparr>))"
  by code_simp

text \<open>
  Claim C4, amended. For an item with an integer quantity \<open>n \<le> 2 ^ 53\<close> (the range in
  which the subtraction of integers is exact) and an integer request \<open>q\<close> with
  \<open>0 < q \<le> n\<close>, \<^verbatim>\<open>removeStock\<close> succeeds with \<open>removed = q\<close>, the stored item has
  quantity \<open>n - q\<close>, and its \<open>updatedAt\<close> is the clock reading of the call: it is
  strictly greater than before exactly when that reading is later than the stored time
  stamp.
\<close>

theorem removeStock_decrements:
  assumes "getItemById ident st = Some item" and "quantity item = Number n"
    and "0 < q" and "q \<le> n" and "n \<le> 2 ^ 53"
  shows "\<exists>item' st'. removeStock ident (Num (Number q)) now st = (Success item' (Number q), st') \<and>
     getItemById ident st' = Some item' \<and>
     item' = item\<lparr>quantity := Number (n - q), updatedAt := now\<rparr> \<and>
     quantity item' = Number (n - q) \<and> updatedAt item' = now \<and>
     (updatedAt item < updatedAt item') = (updatedAt item < now)"
proof -
  have "(2::int) ^ 53 < 10 ^ 21" by simp
  with assms(4,5) have "q < 10 ^ 21" by linarith
  with assms(3) have p: "parseInt (Num (Number q)) = Number q" by (simp add: parseInt_Number)
  let ?item' = "item\<lparr>quantity := Number (n - q), updatedAt := now\<rparr>"
  let ?st' = "saveAllItems
     ((getAllItems st)[nat (findIndex (\<lambda>i. item_id i = ident) (getAllItems st)) := ?item']) st"
  have run: "removeStock ident (Num (Number q)) now st = (Success ?item' (Number q), ?st')"
    using assms(2,3,4) by (simp add: removeStock_found [OF assms(1)] p num_le_def Let_def)
  have look: "getItemById ident ?st' = Some ?item'"
    using assms(1) by (rule getItemById_saved) simp
  from run look show ?thesis by simp
qed

theorem removeStock_decrements_witness:
  "\<exists>item' st'. removeStock ''item_a'' (Num (Number 3)) ''2024-02-02T00:00:00.000Z'' shop =
       (Success item' (Number 3), st') \<and>
     getItemById ''item_a'' st' = Some item' \<and> quantity item' = Number 7 \<and>
     updatedAt widget < updatedAt item'"
proof -
  have g: "getItemById ''item_a'' shop = Some widget" by code_simp
  have q: "quantity widget = Number 10" by (simp add: widget_def)
  have lt: "updatedAt widget < ''2024-02-02T00:00:00.000Z''" by code_simp
  from removeStock_decrements [OF g q, of 3 "''2024-02-02T00:00:00.000Z''"] lt
  obtain item' st' where
    "removeStock ''item_a'' (Num (Number 3)) ''2024-02-02T00:00:00.000Z'' shop =
       (Success item' (Number 3), st') \<and>
     getItemById ''item_a'' st' = Some item' \<and> quantity item' = Number 7 \<and>
     updatedAt widget < updatedAt item'"
    by auto
  then show ?thesis by blast
qed

text \<open>
  A request that is not an integer is parsed by \<^verbatim>\<open>parseInt\<close>, which reads the decimal
  string of the number up to the point. Let the request be \<open>m / 10 ^ d\<close> in normal form
  (\<open>0 < d\<close> and \<open>m\<close> not a multiple of ten) and let the item exist. If the request is at
  least \<open>1\<close> and its integer part \<open>t\<close> does not exceed the item's integer quantity
  \<open>n \<le> 2 ^ 53\<close>, then \<open>t\<close> units are removed and the stored item has quantity
  \<open>n - t\<close>. If the request is between \<open>-1\<close> and \<open>1\<close> and is negative or at least
  \<open>10 ^ -6\<close>, the outcome is \<open>InvalidQuantity\<close>.
\<close>

lemma removeStock_truncates:
  assumes "getItemById ident st = Some item" and "0 < d" and "m mod 10 \<noteq> 0"
  shows "(10 ^ d \<le> m \<and> quantity item = Number n \<and> m div 10 ^ d \<le> n \<and> n \<le> 2 ^ 53 \<longrightarrow>
           (\<exists>item' st'. removeStock ident (Num (Fin m d)) now st =
              (Success item' (Number (m div 10 ^ d)), st') \<and>
              item' = item\<lparr>quantity := Number (n - m div 10 ^ d), updatedAt := now\<rparr> \<and>
              getItemById ident st' = Some item')) \<and>
         (\<bar>m\<bar> < 10 ^ d \<and> (m < 0 \<or> 10 ^ d \<le> m * 10 ^ 6) \<longrightarrow>
           removeStock ident (Num (Fin m d)) now st = (InvalidQuantity, st))"
proof -
  have a: "10 ^ d \<le> m \<and> quantity item = Number n \<and> m div 10 ^ d \<le> n \<and> n \<le> 2 ^ 53 \<longrightarrow>
           (\<exists>item' st'. removeStock ident (Num (Fin m d)) now st =
              (Success item' (Number (m div 10 ^ d)), st') \<and>
              item' = item\<lparr>quantity := Number (n - m div 10 ^ d), updatedAt := now\<rparr> \<and>
              getItemById ident st' = Some item')"
  proof
    assume h: "10 ^ d \<le> m \<and> quantity item = Number n \<and> m div 10 ^ d \<le> n \<and> n \<le> 2 ^ 53"
    then have "(0::int) < 10 ^ d" and "10 ^ d \<le> m" by simp_all
    then have pos: "0 < m" by linarith
    have "(2::int) ^ 53 < 10 ^ 21" by simp
    with h have small: "m div 10 ^ d < 10 ^ 21" by linarith
    have p: "parseInt (Num (Fin m d)) = Number (m div 10 ^ d)"
      using assms(2) pos assms(3) h small by (simp add: parseInt_fraction)
    have t: "0 < m div 10 ^ d" using h by (simp add: pos_imp_zdiv_pos_iff)
    let ?item' = "item\<lparr>quantity := Number (n - m div 10 ^ d), updatedAt := now\<rparr>"
    let ?st' = "saveAllItems
       ((getAllItems st)[nat (findIndex (\<lambda>i. item_id i = ident) (getAllItems st)) := ?item']) st"
    have run: "removeStock ident (Num (Fin m d)) now st = (Success ?item' (Number (m div 10 ^ d)), ?st')"
      using h t by (simp add: removeStock_found [OF assms(1)] p num_le_def Let_def)
    have look: "getItemById ident ?st' = Some ?item'"
      using assms(1) by (rule getItemById_saved) simp
    from run look show "\<exists>item' st'. removeStock ident (Num (Fin m d)) now st =
              (Success item' (Number (m div 10 ^ d)), st') \<and>
              item' = item\<lparr>quantity := Number (n - m div 10 ^ d), updatedAt := now\<rparr> \<and>
              getItemById ident st' = Some item'"
      by blast
  qed
  have b: "\<bar>m\<bar> < 10 ^ d \<and> (m < 0 \<or> 10 ^ d \<le> m * 10 ^ 6) \<longrightarrow>
           removeStock ident (Num (Fin m d)) now st = (InvalidQuantity, st)"
  proof
    assume h: "\<bar>m\<bar> < 10 ^ d \<and> (m < 0 \<or> 10 ^ d \<le> m * 10 ^ 6)"
    have "num_le (num_or (parseInt (Num (Fin m d))) (Number 0)) (Number 0)"
    proof (cases "m < 0")
      case True
      then show ?thesis using parseInt_negative [of m d]
        by (auto simp: num_le_def split: if_splits)
    next
      case False
      with assms(3) have pos: "0 < m" by (cases "m = 0") auto
      with h False have "m < 10 ^ d" and "10 ^ d \<le> m * 10 ^ 6" by auto
      with assms(2) pos assms(3) have "parseInt (Num (Fin m d)) = Number 0"
        by (simp add: parseInt_small)
      then show ?thesis by (simp add: num_le_def)
    qed
    then show "removeStock ident (Num (Fin m d)) now st = (InvalidQuantity, st)"
      by (simp add: removeStock_found [OF assms(1)] Let_def)
  qed
  from a b show ?thesis by (rule conjI)
qed

text \<open>The example of the specification: \<open>3.9\<close> from a stock of ten removes three and
  leaves seven, and \<open>0.9\<close> is an invalid quantity.\<close>

lemma removeStock_truncates_example:
  "removeStock ''item_a'' (Num (Fin 39 1)) ''2024-02-02T00:00:00.000Z'' shop =
     (Success (widget\<lparr>quantity := Number 7, updatedAt := ''2024-02-02T00:00:00.000Z''\<rparr>) (Number 3),
      \<lparr>stored = [gadget, widget\<lparr>quantity := Number 7, updatedAt := ''2024-02-02T00:00:00.000Z''\<rparr>],
       setItem_calls = 1\<rparr>) \<and>
   removeStock ''item_a'' (Num (Fin 9 1)) ''2024-02-02T00:00:00.000Z'' shop = (InvalidQuantity, shop)"
  by code_simp

text \<open>
  Claim C10. A request that truncates to \<open>0\<close> is to give \<open>InvalidQuantity\<close>. The code
  parses the request with \<^verbatim>\<open>parseInt(quantity)\<close>, which truncates the decimal string of a
  number; but a positive number below \<open>10 ^ -6\<close> prints in exponent notation, so for
  the request \<open>5 / 10 ^ 7\<close> \<^verbatim>\<open>parseInt\<close> reads \<^verbatim>\<open>5e-7\<close> up to the \<^verbatim>\<open>e\<close>: the request
  truncates to \<open>0\<close>, and yet five units are removed from the stock of ten and the store
  is written.
\<close>

theorem removeStock_exponent_request:
  "\<bar>5::int\<bar> < 10 ^ 7 \<and>
   Number_toString (Fin 5 7) = ''5e-7'' \<and>
   parseInt (Num (Fin 5 7)) = Number 5 \<and>
   removeStock ''item_a'' (Num (Fin 5 7)) ''2024-02-02T00:00:00.000Z'' shop =
     (Success (widget\<lparr>quantity := Number 5, updatedAt := ''2024-02-02T00:00:00.000Z''\<rparr>) (Number 5),
      \<lparr>stored = [gadget, widget\<lparr>quantity := Number 5, updatedAt := ''2024-02-02T00:00:00.000Z''\<rparr>],
       setItem_calls = 1\<rparr>) \<and>
   removeStock ''item_a'' (Num (Fin 5 7)) ''2024-02-02T00:00:00.000Z'' shop \<noteq> (InvalidQuantity, shop)"
  by code_simp

subsection \<open>Resolving a scanned code\<close>

text \<open>
  Claim C3. When some item's barcode equals the code, the outcome is \<open>ExactMatch\<close> with
  an item of that barcode (the first one), whatever the search would return; when no
  barcode equals the code, the outcome follows the number of items that the search
  returns: none, one, several.
\<close>

theorem handleBarcodeDetected_exact_first:
  "(item \<in> set (getAllItems st) \<and> barcode item = Some code \<longrightarrow>
      (\<exists>hit. handleBarcodeDetected code st = ExactMatch hit \<and>
             hit \<in> set (getAllItems st) \<and> barcode hit = Some code)) \<and>
   ((\<forall>item \<in> set (getAllItems st). barcode item \<noteq> Some code) \<longrightarrow>
      handleBarcodeDetected code st =
        (case searchItems code st of
           [] \<Rightarrow> NoMatch
         | [hit] \<Rightarrow> SingleMatch hit
         | hits \<Rightarrow> MultipleMatches hits))"
proof (intro conjI impI)
  assume "item \<in> set (getAllItems st) \<and> barcode item = Some code"
  then obtain hit where "find (\<lambda>i. barcode i = Some code) (getAllItems st) = Some hit"
    "hit \<in> set (getAllItems st)" "barcode hit = Some code"
    using find_Some_first [of item "getAllItems st" "\<lambda>i. barcode i = Some code"] by blast
  then show "\<exists>hit. handleBarcodeDetected code st = ExactMatch hit \<and>
             hit \<in> set (getAllItems st) \<and> barcode hit = Some code"
    by (simp add: handleBarcodeDetected_def getItemByBarcode_def)
next
  assume "\<forall>item \<in> set (getAllItems st). barcode item \<noteq> Some code"
  then have "find (\<lambda>i. barcode i = Some code) (getAllItems st) = None"
    by (simp add: find_None_iff')
  then show "handleBarcodeDetected code st =
        (case searchItems code st of
           [] \<Rightarrow> NoMatch
         | [hit] \<Rightarrow> SingleMatch hit
         | hits \<Rightarrow> MultipleMatches hits)"
    by (simp add: handleBarcodeDetected_def getItemByBarcode_def Let_def split: list.splits)
qed

theorem handleBarcodeDetected_exact_first_witness:
  "(\<exists>hit. handleBarcodeDetected ''123'' shop = ExactMatch hit \<and>
          hit \<in> set (getAllItems shop) \<and> barcode hit = Some ''123'') \<and>
   searchItems ''123'' shop = [gadget, widget] \<and>
   handleBarcodeDetected ''widget'' shop = SingleMatch widget"
proof -
  have a: "widget \<in> set (getAllItems shop) \<and> barcode widget = Some ''123''"
    by (simp add: getAllItems_def shop_def widget_def)
  have b: "\<forall>item \<in> set (getAllItems shop). barcode item \<noteq> Some ''widget''"
    by (simp add: getAllItems_def shop_def widget_def gadget_def)
  have s1: "searchItems ''123'' shop = [gadget, widget]" by code_simp
  have s2: "searchItems ''widget'' shop = [widget]" by code_simp
  from a b s1 s2
    handleBarcodeDetected_exact_first [of widget shop "''123''"]
    handleBarcodeDetected_exact_first [of widget shop "''widget''"]
  show ?thesis by simp
qed

subsection \<open>Searching\<close>

lemma is_space_lower_char: "is_space (lower_char c) = is_space c"
proof (cases "65 \<le> (of_char c :: nat) \<and> (of_char c :: nat) \<le> 90")
  case False
  then show ?thesis by (auto simp: lower_char_def Let_def)
next
  case True
  then have "(of_char (char_of ((of_char c :: nat) + 32)) :: nat) = of_char c + 32"
    by (simp add: of_char_of)
  with True show ?thesis by (simp add: lower_char_def is_space_def Let_def)
qed

lemma dropWhile_space_lower:
  "dropWhile is_space (toLowerCase s) = toLowerCase (dropWhile is_space s)"
  by (induction s) (simp_all add: toLowerCase_def is_space_lower_char)

lemma trim_toLowerCase: "trim (toLowerCase s) = toLowerCase (trim s)"
proof -
  have r: "\<And>t. rev (toLowerCase t) = toLowerCase (rev t)" by (simp add: toLowerCase_def rev_map)
  show ?thesis
    by (simp add: trim_def dropWhile_space_lower r)
qed

lemma includes_empty: "includes_str [] t = (t = [])"
  by (simp add: includes_str_def)

lemma toLowerCase_Nil: "toLowerCase [] = []"
  by (simp add: toLowerCase_def)

lemma toLowerCase_Nil_iff: "(toLowerCase s = []) = (s = [])"
  by (simp add: toLowerCase_def)

lemma matches_spec_match:
  assumes "trim query \<noteq> []"
  shows "matches (trim (toLowerCase query)) item = spec_match (trim query) item"
proof -
  have t: "trim (toLowerCase query) = toLowerCase (trim query)" by (rule trim_toLowerCase)
  have ne: "toLowerCase (trim query) \<noteq> []" using assms by (simp add: toLowerCase_Nil_iff)
  show ?thesis
  proof (cases "barcode item")
    case None
    then show ?thesis by (simp add: matches_def spec_match_def contains_ci_def t)
  next
    case (Some b)
    show ?thesis
    proof (cases "b = []")
      case True
      with Some ne show ?thesis
        by (simp add: matches_def spec_match_def contains_ci_def t includes_empty toLowerCase_Nil)
    next
      case False
      with Some show ?thesis by (simp add: matches_def spec_match_def contains_ci_def t)
    qed
  qed
qed

lemma trim_Nil: "trim [] = []" by (simp add: trim_def)

text \<open>
  Claim C6, as stated: for a query that is not blank, the search returns the items that
  contain the query itself. It fails for a query with white space around it: the module
  searches for the trimmed query.
\<close>

theorem searchItems_counterexample:
  "trim '' wid'' \<noteq> [] \<and>
   searchItems '' wid'' shop \<noteq> filter (spec_match '' wid'') (getAllItems shop)"
  by code_simp

text \<open>
  Claim C6, amended. A query that is empty or all white space returns the empty
  sequence; any other query returns exactly the items whose description, stock number,
  supplier or non-null barcode contains the query with the white space at its ends
  removed, as a case-insensitive substring.
\<close>

theorem searchItems_trimmed:
  "searchItems query st =
     (if trim query = [] then [] else filter (spec_match (trim query)) (getAllItems st))"
proof (cases "trim query = []")
  case True
  then show ?thesis by (simp add: searchItems_def)
next
  case False
  then have q: "query \<noteq> []" using trim_Nil by auto
  have "matches (trim (toLowerCase query)) = spec_match (trim query)"
    by (rule ext) (rule matches_spec_match [OF False])
  then have "filter (matches (trim (toLowerCase query))) (getAllItems st)
      = filter (spec_match (trim query)) (getAllItems st)"
    by simp
  with False q show ?thesis by (simp add: searchItems_def Let_def)
qed

theorem searchItems_trimmed_witness:
  "searchItems '' Wid'' shop = [widget] \<and> searchItems ''   '' shop = []"
  by (simp only: searchItems_trimmed) code_simp

subsection \<open>Updating an item\<close>





section \<open>Properties of export and import\<close>

subsection \<open>Strings\<close>

lemma lt16_cases:
  "v < 16 \<Longrightarrow> v = 0 \<or> v = 1 \<or> v = 2 \<or> v = 3 \<or> v = 4 \<or> v = 5 \<or> v = 6 \<or> v = 7 \<or> v = 8 \<or> v = 9
     \<or> v = 10 \<or> v = 11 \<or> v = 12 \<or> v = 13 \<or> v = 14 \<or> v = (15::nat)"
  by arith

lemma digit_val_hex_char: "v < 16 \<Longrightarrow> digit_val (hex_char v) = Some v"
  using lt16_cases [of v] by (auto simp: hex_char_def digit_val_def)

lemma hex4_escape:
  assumes "n < 32"
  shows "hex4 [CHR ''0'', CHR ''0'', hex_char (n div 16), hex_char (n mod 16)] = Some n"
proof -
  have a: "n div 16 < 16" and b: "n mod 16 < 16" using assms by auto
  have z: "digit_val (CHR ''0'') = Some 0" by (simp add: digit_val_def)
  have "radix_prefix 16 [CHR ''0'', CHR ''0'', hex_char (n div 16), hex_char (n mod 16)]
      = [0, 0, n div 16, n mod 16]"
    using a b by (simp add: z digit_val_hex_char)
  then show ?thesis by (simp add: hex4_def radix_value_def)
qed

lemma lex_string_quote_char:
  assumes "lex_string X = Some (s, k)"
  shows "lex_string (quote_char c @ X) = Some (c # s, k + length (quote_char c))"
proof -
  consider (special) "c \<in> set [CHR 0x22, CHR 0x5C, CHR 0x08, CHR 0x09, CHR 0x0A, CHR 0x0C, CHR 0x0D]"
    | (control) "c \<notin> set [CHR 0x22, CHR 0x5C, CHR 0x08, CHR 0x09, CHR 0x0A, CHR 0x0C, CHR 0x0D]"
        "(of_char c :: nat) < 32"
    | (plain) "c \<notin> set [CHR 0x22, CHR 0x5C, CHR 0x08, CHR 0x09, CHR 0x0A, CHR 0x0C, CHR 0x0D]"
        "\<not> (of_char c :: nat) < 32"
    by blast
  then show ?thesis
  proof cases
    case special
    with assms show ?thesis by (auto simp: quote_char_def unescape_def)
  next
    case control
    have u: "utf8 (of_char c) = [c]" using control(2) by (simp add: utf8_def)
    from control assms show ?thesis
      by (simp add: quote_char_def hex4_escape u)
  next
    case plain
    with assms show ?thesis by (simp add: quote_char_def)
  qed
qed

lemma lex_string_quoted:
  "lex_string (concat (map quote_char s) @ CHR 0x22 # rest)
     = Some (s, Suc (length (concat (map quote_char s))))"
proof (induction s)
  case Nil
  show ?case by simp
next
  case (Cons c s)
  have "lex_string (quote_char c @ (concat (map quote_char s) @ CHR 0x22 # rest))
      = Some (c # s, Suc (length (concat (map quote_char s))) + length (quote_char c))"
    using Cons.IH by (rule lex_string_quote_char)
  then show ?case by simp
qed

subsection \<open>The machine on the tokens of a value\<close>

lemma run_append: "run s (ts @ us) = (case run s ts of None \<Rightarrow> None | Some s' \<Rightarrow> run s' us)"
  by (induction ts arbitrary: s) (auto split: option.splits)

lemma tokens_of_first:
  "\<exists>t ts. tokens_of v = t # ts \<and> t \<noteq> TRBrack \<and> t \<noteq> TRBrace \<and> t \<noteq> TComma \<and> t \<noteq> TColon"
  by (cases v) (auto split: list.splits)

lemma obj_put_fresh: "k \<notin> fst ` set ms \<Longrightarrow> obj_put k v ms = ms @ [(k, v)]"
  by (induction ms) auto

lemma run_elements:
  assumes "\<And>x st rest. x \<in> set ys \<Longrightarrow> run (Expect st) (tokens_of x @ rest) = run (deliver x st) rest"
  shows "run (ArrAfter es st) (concat (map (\<lambda>x. TComma # tokens_of x) ys) @ TRBrack # rest)
     = run (deliver (JArr (es @ ys)) st) rest"
  using assms
proof (induction ys arbitrary: es)
  case Nil
  show ?case by simp
next
  case (Cons y ys)
  have "run (Expect (FArr es # st)) (tokens_of y @ concat (map (\<lambda>x. TComma # tokens_of x) ys) @ TRBrack # rest)
      = run (deliver y (FArr es # st)) (concat (map (\<lambda>x. TComma # tokens_of x) ys) @ TRBrack # rest)"
    by (rule Cons.prems) simp
  moreover have "run (ArrAfter (es @ [y]) st) (concat (map (\<lambda>x. TComma # tokens_of x) ys) @ TRBrack # rest)
      = run (deliver (JArr ((es @ [y]) @ ys)) st) rest"
    by (rule Cons.IH) (simp add: Cons.prems)
  ultimately show ?case by simp
qed

lemma run_members:
  assumes "\<And>m st rest. m \<in> set ns \<Longrightarrow>
      run (Expect st) (tokens_of (snd m) @ rest) = run (deliver (snd m) st) rest"
    and "distinct (map fst (ms @ ns))"
  shows "run (ObjAfter ms st)
       (concat (map (\<lambda>m. TComma # TString (fst m) # TColon # tokens_of (snd m)) ns) @ TRBrace # rest)
     = run (deliver (JObj (ms @ ns)) st) rest"
  using assms
proof (induction ns arbitrary: ms)
  case Nil
  show ?case by simp
next
  case (Cons n ns)
  have fresh: "fst n \<notin> fst ` set ms" using Cons.prems(2) by auto
  have "run (Expect (FObj ms (fst n) # st))
       (tokens_of (snd n) @ concat (map (\<lambda>m. TComma # TString (fst m) # TColon # tokens_of (snd m)) ns) @ TRBrace # rest)
      = run (deliver (snd n) (FObj ms (fst n) # st))
       (concat (map (\<lambda>m. TComma # TString (fst m) # TColon # tokens_of (snd m)) ns) @ TRBrace # rest)"
    by (rule Cons.prems(1)) simp
  moreover have "run (ObjAfter (ms @ [n]) st)
       (concat (map (\<lambda>m. TComma # TString (fst m) # TColon # tokens_of (snd m)) ns) @ TRBrace # rest)
      = run (deliver (JObj ((ms @ [n]) @ ns)) st) rest"
    using Cons.prems by (intro Cons.IH) auto
  ultimately show ?case using fresh by (simp add: obj_put_fresh)
qed

lemma run_ArrOpen_value:
  "run (ArrOpen st) (tokens_of v @ rest) = run (Expect (FArr [] # st)) (tokens_of v @ rest)"
  using tokens_of_first [of v] by auto

lemma run_tokens_of:
  "clean v \<Longrightarrow> run (Expect st) (tokens_of v @ rest) = run (deliver v st) rest"
proof (induction v arbitrary: st rest)
  case (JArr xs)
  show ?case
  proof (cases xs)
    case Nil
    then show ?thesis by simp
  next
    case (Cons y ys)
    have y: "run (Expect (FArr [] # st)) (tokens_of y @ concat (map (\<lambda>x. TComma # tokens_of x) ys) @ TRBrack # rest)
        = run (deliver y (FArr [] # st)) (concat (map (\<lambda>x. TComma # tokens_of x) ys) @ TRBrack # rest)"
      using JArr Cons by simp
    have ys: "run (ArrAfter [y] st) (concat (map (\<lambda>x. TComma # tokens_of x) ys) @ TRBrack # rest)
        = run (deliver (JArr ([y] @ ys)) st) rest"
      using JArr Cons by (intro run_elements) simp
    show ?thesis
      using Cons y ys run_ArrOpen_value [of st y "concat (map (\<lambda>x. TComma # tokens_of x) ys) @ TRBrack # rest"]
      by simp
  qed
next
  case (JObj ms)
  have IH: "\<And>m st rest. m \<in> set ms \<Longrightarrow>
      run (Expect st) (tokens_of (snd m) @ rest) = run (deliver (snd m) st) rest"
  proof -
    fix m st rest
    assume m: "m \<in> set ms"
    then have "clean (snd m)" using JObj.prems by simp
    moreover have "snd m \<in> Basic_BNFs.snds m" by (cases m) simp
    ultimately show "run (Expect st) (tokens_of (snd m) @ rest) = run (deliver (snd m) st) rest"
      using JObj.IH m by blast
  qed
  show ?case
  proof (cases ms)
    case Nil
    then show ?thesis by simp
  next
    case (Cons n ns)
    have n: "run (Expect (FObj [] (fst n) # st))
         (tokens_of (snd n) @ concat (map (\<lambda>m. TComma # TString (fst m) # TColon # tokens_of (snd m)) ns) @ TRBrace # rest)
        = run (deliver (snd n) (FObj [] (fst n) # st))
         (concat (map (\<lambda>m. TComma # TString (fst m) # TColon # tokens_of (snd m)) ns) @ TRBrace # rest)"
      using Cons by (intro IH) simp
    have ns: "run (ObjAfter [n] st)
         (concat (map (\<lambda>m. TComma # TString (fst m) # TColon # tokens_of (snd m)) ns) @ TRBrace # rest)
        = run (deliver (JObj ([n] @ ns)) st) rest"
    proof (rule run_members)
      fix m st rest
      assume "m \<in> set ns"
      then show "run (Expect st) (tokens_of (snd m) @ rest) = run (deliver (snd m) st) rest"
        using Cons by (intro IH) simp
    next
      show "distinct (map fst ([n] @ ns))" using JObj.prems Cons by simp
    qed
    show ?thesis using Cons n ns by simp
  qed
qed simp_all

subsection \<open>The text of a number\<close>

lemma is_digit_digit_char: "v < 10 \<Longrightarrow> is_digit (digit_char v)"
  by (simp add: is_digit_def digit_char_facts)

lemma digit_char_zero_iff: "v < 10 \<Longrightarrow> (digit_char v = CHR ''0'') = (v = 0)"
  using lt10_cases [of v] by (auto simp: digit_char_def)

lemma takeWhile_digits:
  assumes "\<forall>v \<in> set vs. v < 10" and "R = [] \<or> \<not> is_digit (hd R)"
  shows "takeWhile is_digit (map digit_char vs @ R) = map digit_char vs"
    and "dropWhile is_digit (map digit_char vs @ R) = R"
proof -
  have b: "takeWhile is_digit R = []" using assms(2) by (cases R) auto
  have c: "dropWhile is_digit R = R" using assms(2) by (cases R) auto
  show "takeWhile is_digit (map digit_char vs @ R) = map digit_char vs"
    using assms(1) b by (induction vs) (simp_all add: is_digit_digit_char)
  show "dropWhile is_digit (map digit_char vs @ R) = R"
    using assms(1) c by (induction vs) (simp_all add: is_digit_digit_char)
qed

lemma stops_not_digit:
  assumes "stops r"
  shows "r = [] \<or> (\<not> is_digit (hd r) \<and> hd r \<noteq> CHR ''.'' \<and> hd r \<noteq> CHR ''e'' \<and> hd r \<noteq> CHR ''E'')"
  using assms by (auto simp: stops_def is_digit_def digit_val_def)

lemma lex_exponent_none: "stops r \<Longrightarrow> lex_exponent r = Some (0, 0)"
  using stops_not_digit [of r] by (cases r) (auto simp: lex_exponent_def)

lemma lex_exponent_some:
  assumes "xv \<noteq> []" and "\<forall>v \<in> set xv. v < 10" and "stops r"
  shows "lex_exponent (CHR ''e'' # (if neg then CHR ''-'' else CHR ''+'') # map digit_char xv @ r)
     = Some ((if neg then - 1 else 1) * int (radix_value 10 xv), 2 + length xv)"
proof -
  have nd: "r = [] \<or> \<not> is_digit (hd r)" using stops_not_digit [OF assms(3)] by auto
  have t: "takeWhile is_digit (map digit_char xv @ r) = map digit_char xv"
    using assms(2) nd by (rule takeWhile_digits)
  have p: "radix_prefix 10 (map digit_char xv) = xv"
    using radix_prefix_digits [OF assms(2), of "[]"] by simp
  show ?thesis
    using assms(1) by (simp add: lex_exponent_def t p)
qed

lemma lex_decimal_shape:
  assumes "iv \<noteq> []" and "\<forall>v \<in> set iv. v < 10" and "length iv = 1 \<or> hd iv \<noteq> 0"
    and "\<forall>v \<in> set fv. v < 10"
    and "lex_exponent (E @ rest) = Some (ex, length E)"
    and "E @ rest = [] \<or> (\<not> is_digit (hd (E @ rest)) \<and> hd (E @ rest) \<noteq> CHR ''.'')"
  shows "lex_decimal (decimal_text neg iv fv E @ rest) =
     Some (if 0 \<le> ex - int (length fv)
           then Number ((if neg then - 1 else 1) * int (radix_value 10 (iv @ fv))
                        * 10 ^ nat (ex - int (length fv)))
           else norm ((if neg then - 1 else 1) * int (radix_value 10 (iv @ fv)))
                  (nat (- (ex - int (length fv)))),
           length (decimal_text neg iv fv E))"
proof -
  let ?T = "E @ rest"
  let ?R = "(if fv = [] then [] else CHR ''.'' # map digit_char fv) @ ?T"
  let ?s1 = "map digit_char iv @ ?R"
  let ?input = "decimal_text neg iv fv E @ rest"
  obtain i0 iv' where iv: "iv = i0 # iv'" using assms(1) by (cases iv) auto
  with assms(2) have i0: "i0 < 10" by simp
  have input: "?input = (if neg then ''-'' else []) @ ?s1" by (simp add: decimal_text_def)
  have neg: "(?input \<noteq> [] \<and> hd ?input = CHR ''-'') = neg"
    using i0 by (simp add: decimal_text_def iv digit_char_facts)
  have s1: "(if neg then tl ?input else ?input) = ?s1" by (simp add: decimal_text_def)
  have Rnd: "?R = [] \<or> \<not> is_digit (hd ?R)"
    using assms(6) by (auto simp: is_digit_def digit_val_def)
  have I: "takeWhile is_digit ?s1 = map digit_char iv" using assms(2) Rnd by (rule takeWhile_digits)
  have r1: "dropWhile is_digit ?s1 = ?R" using assms(2) Rnd by (rule takeWhile_digits)
  have dot: "(?R \<noteq> [] \<and> hd ?R = CHR ''.'') = (fv \<noteq> [])" using assms(6) by auto
  have Tnd: "?T = [] \<or> \<not> is_digit (hd ?T)" using assms(6) by auto
  have F: "(if fv \<noteq> [] then takeWhile is_digit (tl ?R) else []) = map digit_char fv"
    using takeWhile_digits(1) [OF assms(4) Tnd] by auto
  have r2: "(if fv \<noteq> [] then dropWhile is_digit (tl ?R) else ?R) = ?T"
    using takeWhile_digits(2) [OF assms(4) Tnd] by auto
  have lead: "\<not> (1 < length (map digit_char iv) \<and> hd (map digit_char iv) = CHR ''0'')"
    using assms(3) i0 by (auto simp: iv digit_char_zero_iff)
  have all: "\<forall>v \<in> set (iv @ fv). v < 10" using assms(2,4) by auto
  have val: "radix_prefix 10 (map digit_char iv @ map digit_char fv) = iv @ fv"
    using radix_prefix_digits [OF all, of "[]"] by simp
  show ?thesis
    unfolding lex_decimal_def neg s1 I r1 dot F r2 Let_def
    using assms(1) lead assms(5) val by (simp add: Let_def decimal_text_def)
qed

lemma hd_dec_digits: "0 < n \<Longrightarrow> hd (dec_digits n) \<noteq> 0"
proof (induction n rule: dec_digits.induct)
  case (1 n)
  show ?case
  proof (cases "n < 10")
    case True
    with "1.prems" show ?thesis by (simp add: dec_digits.simps [of n])
  next
    case False
    then have "0 < n div 10" by simp
    with False "1.IH" have "hd (dec_digits (n div 10)) \<noteq> 0" by simp
    with False show ?thesis by (simp add: dec_digits.simps [of n] dec_digits_nonempty)
  qed
qed

lemma radix_value_zeros: "radix_value 10 (replicate j 0 @ vs) = radix_value 10 vs"
  by (induction j) (simp_all add: radix_value_def)

lemma norm_id: "0 < d \<Longrightarrow> m mod 10 \<noteq> 0 \<Longrightarrow> norm m d = Fin m d"
  by (cases d) simp_all

lemma digit_char_replicate: "map digit_char (replicate z 0) = replicate z (CHR ''0'')"
  by (simp add: digit_char_def)

lemma lex_decimal_zero:
  assumes "stops rest"
  shows "lex_decimal (CHR ''0'' # rest) = Some (Number 0, 1)"
proof -
  have t: "decimal_text False [0] [] [] = ''0''" by (simp add: decimal_text_def digit_char_def)
  have "lex_decimal (decimal_text False [0] [] [] @ rest) =
     Some (if 0 \<le> 0 - int (length ([]::nat list))
           then Number ((if False then - 1 else 1) * int (radix_value 10 ([0] @ []))
                        * 10 ^ nat (0 - int (length ([]::nat list))))
           else norm ((if False then - 1 else 1) * int (radix_value 10 ([0] @ [])))
                  (nat (- (0 - int (length ([]::nat list))))),
           length (decimal_text False [0] [] []))"
    using stops_not_digit [OF assms] lex_exponent_none [OF assms]
    by (intro lex_decimal_shape) auto
  then show ?thesis by (simp add: t radix_value_def)
qed

lemma lex_decimal_nonzero:
  assumes nz: "m \<noteq> 0" and nm: "d = 0 \<or> m mod 10 \<noteq> 0" and st: "stops rest"
  shows "lex_decimal (Number_toString (Fin m d) @ rest)
     = Some (Fin m d, length (Number_toString (Fin m d)))"
proof -
  let ?a = "nat \<bar>m\<bar>"
  let ?neg = "m < 0"
  let ?sg = "(if ?neg then - 1 else 1) :: int"
  obtain s z where sz: "strip_zeros ?a = (s, z)" by (cases "strip_zeros ?a")
  have apos: "0 < ?a" using nz by simp
  have a: "?a = s * 10 ^ z" using sz by (rule strip_zeros_value)
  have spos: "0 < s" using sz apos by (rule strip_zeros_pos)
  have m: "m = ?sg * int ?a" by simp
  have z0: "0 < d \<Longrightarrow> z = 0 \<and> s = ?a"
  proof -
    assume "0 < d"
    with nm have "m mod 10 \<noteq> 0" by simp
    moreover have "int (?a mod 10) = \<bar>m\<bar> mod 10" by (simp add: zmod_int)
    ultimately have "?a mod 10 \<noteq> 0" by (cases "0 \<le> m") (auto simp: zmod_zminus1_eq_if split: if_splits)
    then have "strip_zeros ?a = (?a, 0)" by (rule strip_zeros_odd)
    with sz show ?thesis by simp
  qed
  let ?ds = "dec_digits s"
  let ?k = "length ?ds"
  let ?n = "int ?k + int z - int d"
  have kpos: "0 < ?k" using dec_digits_nonempty [of s] by simp
  have lt10: "\<forall>v \<in> set ?ds. v < 10" using dec_digits_lt10 by blast
  have hd0: "hd ?ds \<noteq> 0" using spos by (rule hd_dec_digits)
  have vds: "radix_value 10 ?ds = s" by (rule radix_value_dec_digits)
  have nd: "rest = [] \<or> (\<not> is_digit (hd rest) \<and> hd rest \<noteq> CHR ''.'')"
    using stops_not_digit [OF st] by auto
  have ex0: "lex_exponent ([] @ rest) = Some (0, length ([]::string))"
    using lex_exponent_none [OF st] by simp
  have str: "Number_toString (Fin m d) =
      (if ?neg then ''-'' else []) @
        (if int ?k \<le> ?n \<and> ?n \<le> 21 then map digit_char ?ds @ replicate (nat (?n - int ?k)) (CHR ''0'')
         else if 0 < ?n \<and> ?n \<le> 21
           then take (nat ?n) (map digit_char ?ds) @ ''.'' @ drop (nat ?n) (map digit_char ?ds)
         else if - 6 < ?n \<and> ?n \<le> 0
           then ''0.'' @ replicate (nat (- ?n)) (CHR ''0'') @ map digit_char ?ds
         else (if int ?k = 1 then map digit_char ?ds
               else hd (map digit_char ?ds) # ''.'' @ tl (map digit_char ?ds)) @ ''e''
              @ (if ?n - 1 < 0 then ''-'' else ''+'')
              @ map digit_char (dec_digits (nat \<bar>?n - 1\<bar>)))"
    using nz sz by (simp add: Number_toString_def Let_def digits_of_def)
  consider (A) "int ?k \<le> ?n \<and> ?n \<le> 21"
    | (B) "\<not> (int ?k \<le> ?n \<and> ?n \<le> 21)" "0 < ?n \<and> ?n \<le> 21"
    | (C) "\<not> (int ?k \<le> ?n \<and> ?n \<le> 21)" "\<not> (0 < ?n \<and> ?n \<le> 21)" "- 6 < ?n \<and> ?n \<le> 0"
    | (D) "\<not> (int ?k \<le> ?n \<and> ?n \<le> 21)" "\<not> (0 < ?n \<and> ?n \<le> 21)" "\<not> (- 6 < ?n \<and> ?n \<le> 0)"
    by blast
  then show ?thesis
  proof cases
    case A
    have d0: "d = 0"
    proof (rule ccontr)
      assume "d \<noteq> 0"
      then have "0 < d" by simp
      with z0 A show False by simp
    qed
    have shp: "Number_toString (Fin m d) = decimal_text ?neg (?ds @ replicate z 0) [] []"
      using A d0 by (subst str) (simp add: decimal_text_def digit_char_def)
    have val: "radix_value 10 ((?ds @ replicate z 0) @ []) = ?a"
      unfolding a using radix_value_dec_digits [of "s * 10 ^ z"]
      unfolding dec_digits_shift [OF spos] by simp
    have "lex_decimal (decimal_text ?neg (?ds @ replicate z 0) [] [] @ rest) =
     Some (if 0 \<le> 0 - int (length ([]::nat list))
           then Number ((if ?neg then - 1 else 1) * int (radix_value 10 ((?ds @ replicate z 0) @ []))
                        * 10 ^ nat (0 - int (length ([]::nat list))))
           else norm ((if ?neg then - 1 else 1) * int (radix_value 10 ((?ds @ replicate z 0) @ [])))
                  (nat (- (0 - int (length ([]::nat list))))),
           length (decimal_text ?neg (?ds @ replicate z 0) [] []))"
      using lt10 hd0 kpos nd ex0 by (intro lex_decimal_shape) (auto simp: hd_append)
    then show ?thesis unfolding shp [symmetric] val using d0 by simp
  next
    case B
    have dpos: "0 < d"
    proof (rule ccontr)
      assume "\<not> 0 < d"
      with B show False by simp
    qed
    with z0 have z: "z = 0" and s: "s = ?a" by simp_all
    from dpos nm have odd: "m mod 10 \<noteq> 0" by simp
    let ?j = "?k - d"
    have j: "nat ?n = ?j" "0 < ?j" "?j < ?k" using B z dpos by auto
    have shp: "Number_toString (Fin m d) = decimal_text ?neg (take ?j ?ds) (drop ?j ?ds) []"
      using B j z dpos by (subst str) (simp add: decimal_text_def take_map drop_map)
    have val: "radix_value 10 (take ?j ?ds @ drop ?j ?ds) = ?a" using vds s by simp
    have len: "length (drop ?j ?ds) = d" using j by simp
    have "lex_decimal (decimal_text ?neg (take ?j ?ds) (drop ?j ?ds) [] @ rest) =
     Some (if 0 \<le> 0 - int (length (drop ?j ?ds))
           then Number ((if ?neg then - 1 else 1) * int (radix_value 10 (take ?j ?ds @ drop ?j ?ds))
                        * 10 ^ nat (0 - int (length (drop ?j ?ds))))
           else norm ((if ?neg then - 1 else 1) * int (radix_value 10 (take ?j ?ds @ drop ?j ?ds)))
                  (nat (- (0 - int (length (drop ?j ?ds))))),
           length (decimal_text ?neg (take ?j ?ds) (drop ?j ?ds) []))"
      using lt10 hd0 j nd ex0
      by (intro lex_decimal_shape) (auto simp: hd_take dest: in_set_takeD in_set_dropD)
    then show ?thesis unfolding shp [symmetric] val len using dpos odd by (simp add: norm_id)
  next
    case C
    have dpos: "0 < d" using C(3) kpos by arith
    with z0 have z: "z = 0" and s: "s = ?a" by simp_all
    from dpos nm have odd: "m mod 10 \<noteq> 0" by simp
    let ?j = "d - ?k"
    have j: "nat (- ?n) = ?j" "?k \<le> d" using C(3) z by auto
    have shp: "Number_toString (Fin m d) = decimal_text ?neg [0] (replicate ?j 0 @ ?ds) []"
      using C j kpos z dpos by (subst str) (simp add: decimal_text_def digit_char_def)
    have val: "radix_value 10 ([0] @ replicate ?j 0 @ ?ds) = ?a"
      using radix_value_zeros [of "Suc ?j" ?ds] vds s by simp
    have len: "length (replicate ?j 0 @ ?ds) = d" using j by simp
    have "lex_decimal (decimal_text ?neg [0] (replicate ?j 0 @ ?ds) [] @ rest) =
     Some (if 0 \<le> 0 - int (length (replicate ?j 0 @ ?ds))
           then Number ((if ?neg then - 1 else 1) * int (radix_value 10 ([0] @ replicate ?j 0 @ ?ds))
                        * 10 ^ nat (0 - int (length (replicate ?j 0 @ ?ds))))
           else norm ((if ?neg then - 1 else 1) * int (radix_value 10 ([0] @ replicate ?j 0 @ ?ds)))
                  (nat (- (0 - int (length (replicate ?j 0 @ ?ds))))),
           length (decimal_text ?neg [0] (replicate ?j 0 @ ?ds) []))"
      using lt10 nd ex0 by (intro lex_decimal_shape) auto
    then show ?thesis unfolding shp [symmetric] val len using dpos odd by (simp add: norm_id)
  next
    case D
    let ?xs = "dec_digits (nat \<bar>?n - 1\<bar>)"
    let ?xneg = "?n - 1 < 0"
    let ?E = "CHR ''e'' # (if ?xneg then CHR ''-'' else CHR ''+'') # map digit_char ?xs"
    obtain h t where ht: "?ds = h # t" using kpos by (cases ?ds) auto
    have shp: "Number_toString (Fin m d) = decimal_text ?neg [h] t ?E"
      using D by (subst str) (auto simp add: decimal_text_def ht)
    have val: "radix_value 10 ([h] @ t) = s" using vds ht by simp
    have len: "int (length t) = int ?k - 1" using ht by simp
    have exv: "lex_exponent (?E @ rest) = Some (?n - 1, length ?E)"
    proof -
      have "lex_exponent (CHR ''e'' # (if ?xneg then CHR ''-'' else CHR ''+'') # map digit_char ?xs @ rest)
          = Some ((if ?xneg then - 1 else 1) * int (radix_value 10 ?xs), 2 + length ?xs)"
        using dec_digits_nonempty dec_digits_lt10 st by (intro lex_exponent_some) auto
      then show ?thesis by (simp add: radix_value_dec_digits)
    qed
    have Ehd: "?E @ rest = [] \<or> (\<not> is_digit (hd (?E @ rest)) \<and> hd (?E @ rest) \<noteq> CHR ''.'')"
      by (simp add: is_digit_def digit_val_def)
    have "lex_decimal (decimal_text ?neg [h] t ?E @ rest) =
     Some (if 0 \<le> (?n - 1) - int (length t)
           then Number ((if ?neg then - 1 else 1) * int (radix_value 10 ([h] @ t))
                        * 10 ^ nat ((?n - 1) - int (length t)))
           else norm ((if ?neg then - 1 else 1) * int (radix_value 10 ([h] @ t)))
                  (nat (- ((?n - 1) - int (length t)))),
           length (decimal_text ?neg [h] t ?E))"
      using lt10 ht exv Ehd
      by (intro lex_decimal_shape) auto
    then have run: "lex_decimal (Number_toString (Fin m d) @ rest) =
     Some (if 0 \<le> int z - int d
           then Number (?sg * int s * 10 ^ nat (int z - int d))
           else norm (?sg * int s) (nat (int d - int z)),
           length (Number_toString (Fin m d)))"
      unfolding shp [symmetric] val len by (simp add: algebra_simps)
    show ?thesis
    proof (cases "d = 0")
      case True
      have ia: "int ?a = int s * 10 ^ z" unfolding a by simp
      have "?sg * (int s * 10 ^ z) = m" unfolding ia [symmetric] by simp
      then have "?sg * int s * 10 ^ z = m" by (simp only: mult.assoc)
      with run True show ?thesis by simp
    next
      case False
      then have dpos: "0 < d" by simp
      with z0 have z: "z = 0" and s: "s = ?a" by simp_all
      from dpos nm have odd: "m mod 10 \<noteq> 0" by simp
      have "?sg * int s = m" using s by simp
      with run z dpos odd show ?thesis by (simp add: norm_id)
    qed
  qed
qed

subsection \<open>The tokens of a printed value\<close>

lemma push_pushes: "push t r = pushes [t] r"
  by (cases r) (simp_all add: push_def pushes_def)

lemma pushes_pushes: "pushes a (pushes b r) = pushes (a @ b) r"
  by (cases r) (simp_all add: pushes_def)

lemma pushes_Nil: "pushes [] r = r"
  by (cases r) (simp_all add: pushes_def)

lemma lex_ws: "\<forall>c \<in> set w. is_json_ws c \<Longrightarrow> lex (w @ r) = lex r"
  by (induction w) simp_all

lemma lex_punct:
  "lex (CHR ''['' # r) = pushes [TLBrack] (lex r)"
  "lex (CHR '']'' # r) = pushes [TRBrack] (lex r)"
  "lex (CHR ''{'' # r) = pushes [TLBrace] (lex r)"
  "lex (CHR ''}'' # r) = pushes [TRBrace] (lex r)"
  "lex (CHR '','' # r) = pushes [TComma] (lex r)"
  "lex (CHR '':'' # r) = pushes [TColon] (lex r)"
  by (simp_all add: is_json_ws_def push_pushes)

lemma lex_literals:
  "lex (''null'' @ r) = pushes [TNull] (lex r)"
  "lex (''true'' @ r) = pushes [TTrue] (lex r)"
  "lex (''false'' @ r) = pushes [TFalse] (lex r)"
  by (simp_all add: is_json_ws_def is_digit_def digit_val_def push_pushes)

lemma lex_QuoteJSONString: "lex (QuoteJSONString s @ r) = pushes [TString s] (lex r)"
proof -
  have "lex_string (concat (map quote_char s) @ CHR 0x22 # r)
      = Some (s, Suc (length (concat (map quote_char s))))"
    by (rule lex_string_quoted)
  then show ?thesis
    by (simp add: QuoteJSONString_def is_json_ws_def push_pushes)
qed

lemma lex_decimal_first:
  assumes "lex_decimal input = Some res"
  shows "input \<noteq> [] \<and> (hd input = CHR ''-'' \<or> is_digit (hd input))"
proof -
  let ?neg = "input \<noteq> [] \<and> hd input = CHR ''-''"
  let ?s1 = "if ?neg then tl input else input"
  from assms have "takeWhile is_digit ?s1 \<noteq> []"
    by (auto simp: lex_decimal_def Let_def split: if_splits)
  then have "?s1 \<noteq> [] \<and> is_digit (hd ?s1)" by (cases ?s1) (auto split: if_splits)
  then show ?thesis by (auto split: if_splits)
qed

lemma lex_decimal_text:
  assumes "normal x" and "stops r"
  shows "lex_decimal (Number_toString x @ r) = Some (x, length (Number_toString x))"
proof (cases x)
  case (Fin m d)
  show ?thesis
  proof (cases "m = 0")
    case True
    with assms Fin have "d = 0" by simp
    with True Fin assms(2) show ?thesis
      by (simp add: Number_toString_def lex_decimal_zero)
  next
    case False
    with assms Fin show ?thesis by (simp add: lex_decimal_nonzero)
  qed
qed (use assms in simp_all)

lemma overflow_in_range: "in_range x \<Longrightarrow> overflow x = x"
  by (cases x) simp_all

lemma lex_number_first:
  assumes "lex_number input = Some res"
  shows "input \<noteq> [] \<and> (hd input = CHR ''-'' \<or> is_digit (hd input))"
proof -
  from assms obtain r where "lex_decimal input = Some r"
    by (auto simp: lex_number_def split: option.splits)
  then show ?thesis by (rule lex_decimal_first)
qed

lemma lex_number_text:
  assumes "normal x" and "in_range x" and "stops r"
  shows "lex_number (Number_toString x @ r) = Some (x, length (Number_toString x))"
  using lex_decimal_text [OF assms(1,3)] assms(2) by (simp add: lex_number_def overflow_in_range)

lemma lex_Number_toString:
  assumes "normal x" and "in_range x" and "stops r"
  shows "lex (Number_toString x @ r) = pushes [TNumber x] (lex r)"
proof -
  let ?t = "Number_toString x"
  have run: "lex_number (?t @ r) = Some (x, length ?t)" using assms by (rule lex_number_text)
  have "lex_number (?t @ []) = Some (x, length ?t)"
    using assms(1,2) by (rule lex_number_text) (simp add: stops_def)
  then have first: "?t \<noteq> [] \<and> (hd ?t = CHR ''-'' \<or> is_digit (hd ?t))"
    using lex_number_first [of ?t] by simp
  then obtain c cs where t: "?t = c # cs" by (cases ?t) auto
  with first have c: "c = CHR ''-'' \<or> is_digit c" by simp
  have nw: "\<not> is_json_ws c"
    using c by (auto simp: is_json_ws_def is_digit_def digit_val_def Let_def split: if_splits)
  have np: "c \<noteq> CHR ''{''" "c \<noteq> CHR ''}''" "c \<noteq> CHR ''[''" "c \<noteq> CHR '']''" "c \<noteq> CHR '':''"
    "c \<noteq> CHR '',''" "c \<noteq> CHR 0x22"
    using c by (auto simp: is_digit_def digit_val_def)
  have "lex (c # cs @ r) = push (TNumber x) (lex (drop (length ?t - 1) (cs @ r)))"
    using nw np c run [unfolded t] by (simp add: t)
  then show ?thesis by (simp add: t push_pushes)
qed

lemma lex_white: "white w \<Longrightarrow> lex (w @ r) = lex r"
  unfolding white_def by (rule lex_ws)

lemma lex_joined:
  assumes el: "\<And>x r'. x \<in> set (y # ys) \<Longrightarrow> stops r' \<Longrightarrow> lex (f x @ r') = pushes (tk x) (lex r')"
    and pre: "white pre" and post: "white post" "post = [] \<or> hd post = CHR 0x0A"
    and cl: "closing = CHR '']'' \<or> closing = CHR ''}''"
  shows "lex (join (CHR '','' # pre) (map f (y # ys)) @ post @ closing # r)
     = pushes (tk y @ concat (map (\<lambda>x. TComma # tk x) ys)) (lex (closing # r))"
  using el
proof (induction ys arbitrary: y)
  case Nil
  have "stops (post @ closing # r)" using post(2) cl by (cases post) (auto simp: stops_def)
  then have "lex (f y @ post @ closing # r) = pushes (tk y) (lex (post @ closing # r))"
    by (intro Nil) simp
  then show ?case using post(1) by (simp add: lex_white)
next
  case (Cons y' ys)
  let ?J = "join (CHR '','' # pre) (map f (y' # ys)) @ post @ closing # r"
  have "stops (CHR '','' # pre @ ?J)" by (simp add: stops_def)
  then have "lex (f y @ CHR '','' # pre @ ?J) = pushes (tk y) (lex (CHR '','' # pre @ ?J))"
    by (intro Cons.prems) simp
  moreover have "lex (CHR '','' # pre @ ?J) = pushes [TComma] (lex (pre @ ?J))"
    by (rule lex_punct)
  moreover have "lex (pre @ ?J) = lex ?J" using pre by (rule lex_white)
  moreover have "lex ?J = pushes (tk y' @ concat (map (\<lambda>x. TComma # tk x) ys)) (lex (closing # r))"
    by (rule Cons.IH) (simp add: Cons.prems)
  ultimately show ?case by (simp add: pushes_pushes)
qed

lemma wrap_append:
  "wrap gap ind opening closing parts @ r =
     opening # (if gap = [] then [] else CHR 0x0A # ind @ gap)
       @ join (CHR '','' # (if gap = [] then [] else CHR 0x0A # ind @ gap)) parts
       @ (if gap = [] then [] else CHR 0x0A # ind) @ closing # r"
  by (simp add: wrap_def)

lemma white_facts:
  "white []" "white w \<Longrightarrow> white v \<Longrightarrow> white (w @ v)" "white w \<Longrightarrow> white (CHR 0x0A # w)"
  "white w \<Longrightarrow> white (CHR 0x20 # w)"
  by (auto simp: white_def is_json_ws_def)

lemma lex_stringify:
  "clean v \<Longrightarrow> white gap \<Longrightarrow> white ind \<Longrightarrow> stops r \<Longrightarrow>
     lex (stringify gap ind v @ r) = pushes (tokens_of v) (lex r)"
proof (induction v arbitrary: ind r)
  case JNull
  show ?case using lex_literals(1) [of r] by simp
next
  case (JBool b)
  show ?case using lex_literals(2,3) [of r] by (cases b) simp_all
next
  case (JNum x)
  then have n: "normal x" "in_range x" by simp_all
  then obtain m d where "x = Fin m d" by (cases x) auto
  with n JNum.prems show ?case by (simp add: lex_Number_toString del: in_range.simps)
next
  case (JStr s)
  show ?case by (simp add: lex_QuoteJSONString)
next
  case (JArr xs)
  let ?pre = "if gap = [] then [] else CHR 0x0A # ind @ gap"
  let ?post = "if gap = [] then [] else CHR 0x0A # ind"
  have pre: "white ?pre" and post: "white ?post" "?post = [] \<or> hd ?post = CHR 0x0A"
    using JArr.prems by (auto intro: white_facts)
  have ind': "white (ind @ gap)" using JArr.prems by (auto intro: white_facts)
  show ?case
  proof (cases xs)
    case Nil
    then show ?thesis by (simp add: lex_punct pushes_pushes del: lex.simps)
  next
    case (Cons y ys)
    have el: "\<And>x r'. x \<in> set (y # ys) \<Longrightarrow> stops r' \<Longrightarrow>
        lex (stringify gap (ind @ gap) x @ r') = pushes (tokens_of x) (lex r')"
    proof -
      fix x r'
      assume x: "x \<in> set (y # ys)" and st: "stops r'"
      then have mem: "x \<in> set xs" using Cons by simp
      have "clean x" using JArr.prems(1) mem by simp
      with mem show "lex (stringify gap (ind @ gap) x @ r') = pushes (tokens_of x) (lex r')"
        using JArr.IH [of x "ind @ gap" r'] JArr.prems(2) ind' st by simp
    qed
    have J: "lex (join (CHR '','' # ?pre) (map (stringify gap (ind @ gap)) (y # ys)) @ ?post @ CHR '']'' # r)
        = pushes (tokens_of y @ concat (map (\<lambda>x. TComma # tokens_of x) ys)) (lex (CHR '']'' # r))"
      using lex_joined [of y ys "stringify gap (ind @ gap)" tokens_of ?pre ?post "CHR '']''" r]
        el pre post by blast
    have "lex (stringify gap ind (JArr xs) @ r) =
        pushes [TLBrack] (lex (?pre @ join (CHR '','' # ?pre) (map (stringify gap (ind @ gap)) (y # ys))
           @ ?post @ CHR '']'' # r))"
      using Cons by (simp only: stringify.simps wrap_append list.simps if_False lex_punct)
    also have "\<dots> = pushes [TLBrack] (lex (join (CHR '','' # ?pre) (map (stringify gap (ind @ gap)) (y # ys))
           @ ?post @ CHR '']'' # r))"
      using pre by (simp only: lex_white)
    also have "\<dots> = pushes [TLBrack] (pushes (tokens_of y @ concat (map (\<lambda>x. TComma # tokens_of x) ys))
        (pushes [TRBrack] (lex r)))"
      by (simp only: J lex_punct)
    also have "\<dots> = pushes (tokens_of (JArr xs)) (lex r)"
      using Cons by (simp add: pushes_pushes del: lex.simps)
    finally show ?thesis .
  qed
next
  case (JObj ms)
  let ?pre = "if gap = [] then [] else CHR 0x0A # ind @ gap"
  let ?post = "if gap = [] then [] else CHR 0x0A # ind"
  let ?f = "\<lambda>(k, v). QuoteJSONString k @ (if gap = [] then '':'' else '': '') @ stringify gap (ind @ gap) v"
  let ?tk = "\<lambda>m. TString (fst m) # TColon # tokens_of (snd m)"
  have pre: "white ?pre" and post: "white ?post" "?post = [] \<or> hd ?post = CHR 0x0A"
    using JObj.prems by (auto intro: white_facts)
  have ind': "white (ind @ gap)" using JObj.prems by (auto intro: white_facts)
  show ?case
  proof (cases ms)
    case Nil
    then show ?thesis by (simp add: lex_punct pushes_pushes del: lex.simps)
  next
    case (Cons n ns)
    have el: "\<And>m r'. m \<in> set (n # ns) \<Longrightarrow> stops r' \<Longrightarrow> lex (?f m @ r') = pushes (?tk m) (lex r')"
    proof -
      fix m r'
      assume m: "m \<in> set (n # ns)" and st: "stops r'"
      obtain k v where kv: "m = (k, v)" by (cases m)
      have cv: "clean v" using JObj.prems(1) m kv Cons by auto
      have "v \<in> Basic_BNFs.snds m" using kv by simp
      with m Cons have v: "lex (stringify gap (ind @ gap) v @ r') = pushes (tokens_of v) (lex r')"
        using JObj.IH [of m v "ind @ gap" r'] cv JObj.prems(2) ind' st by simp
      have "lex (CHR '' '' # stringify gap (ind @ gap) v @ r') = lex (stringify gap (ind @ gap) v @ r')"
        by (simp add: is_json_ws_def)
      with v have sp: "lex (CHR '' '' # stringify gap (ind @ gap) v @ r') = pushes (tokens_of v) (lex r')"
        by simp
      show "lex (?f m @ r') = pushes (?tk m) (lex r')"
      proof (cases "gap = []")
        case True
        with v show ?thesis
          by (simp add: kv lex_QuoteJSONString lex_punct pushes_pushes del: lex.simps)
      next
        case False
        with sp show ?thesis
          by (simp add: kv lex_QuoteJSONString lex_punct pushes_pushes del: lex.simps)
      qed
    qed
    have J: "lex (join (CHR '','' # ?pre) (map ?f (n # ns)) @ ?post @ CHR ''}'' # r)
        = pushes (?tk n @ concat (map (\<lambda>x. TComma # ?tk x) ns)) (lex (CHR ''}'' # r))"
      using lex_joined [of n ns ?f ?tk ?pre ?post "CHR ''}''" r] el pre post by blast
    have "lex (stringify gap ind (JObj ms) @ r) =
        pushes [TLBrace] (lex (?pre @ join (CHR '','' # ?pre) (map ?f (n # ns)) @ ?post @ CHR ''}'' # r))"
      using Cons by (simp only: stringify.simps wrap_append list.simps if_False lex_punct)
    also have "\<dots> = pushes [TLBrace] (lex (join (CHR '','' # ?pre) (map ?f (n # ns)) @ ?post @ CHR ''}'' # r))"
      using pre by (simp only: lex_white)
    also have "\<dots> = pushes [TLBrace] (pushes (?tk n @ concat (map (\<lambda>x. TComma # ?tk x) ns))
        (pushes [TRBrace] (lex r)))"
      by (simp only: J lex_punct)
    also have "\<dots> = pushes (tokens_of (JObj ms)) (lex r)"
      using Cons by (simp add: pushes_pushes del: lex.simps)
    finally show ?thesis .
  qed
qed

lemma JSON_parse_stringify:
  assumes "clean v" and "white gap"
  shows "JSON_parse (stringify gap [] v) = Some v"
proof -
  have "lex (stringify gap [] v @ []) = pushes (tokens_of v) (lex [])"
    using assms by (intro lex_stringify) (simp_all add: white_def stops_def)
  then have l: "lex (stringify gap [] v) = Some (tokens_of v)" by (simp add: pushes_def)
  have "run (Expect []) (tokens_of v @ []) = run (deliver v []) []"
    using assms(1) by (rule run_tokens_of)
  then have "run (Expect []) (tokens_of v) = Some (Done v)" by simp
  with l show ?thesis by (simp add: JSON_parse_def)
qed

subsection \<open>What the parser returns\<close>

lemma norm_normal: "normal (norm m d)"
  by (induction d arbitrary: m) simp_all

lemma lex_decimal_normal: "lex_decimal s = Some (x, k) \<Longrightarrow> normal x"
  by (auto simp: lex_decimal_def Let_def norm_normal split: if_splits option.splits)

lemma overflow_parsed: "normal x \<Longrightarrow> parsed_number (overflow x)"
  by (cases x) (auto simp: parsed_number_def)

lemma lex_number_parsed: "lex_number s = Some (x, k) \<Longrightarrow> parsed_number x"
  by (auto simp: lex_number_def overflow_parsed lex_decimal_normal split: option.splits)

lemma lex_step:
  "lex (c # cs) = None \<or> lex (c # cs) = lex cs \<or>
   (\<exists>t k. token_ok t \<and> lex (c # cs) = push t (lex (drop k cs)))"
proof -
  have tok: "\<And>t k. token_ok t \<Longrightarrow> lex (c # cs) = push t (lex (drop k cs)) \<Longrightarrow> ?thesis"
    by blast
  have tok0: "\<And>t. token_ok t \<Longrightarrow> lex (c # cs) = push t (lex cs) \<Longrightarrow> ?thesis"
    using tok [of _ 0] by simp
  show ?thesis
  proof (cases "is_json_ws c")
    case True
    then show ?thesis by simp
  next
    case ws: False
    show ?thesis
    proof (cases "c = CHR ''{''")
      case True
      with ws show ?thesis by (intro tok0 [of TLBrace]) simp_all
    next
      case p1: False
      show ?thesis
      proof (cases "c = CHR ''}''")
        case True
        with ws p1 show ?thesis by (intro tok0 [of TRBrace]) simp_all
      next
        case p2: False
        show ?thesis
        proof (cases "c = CHR ''[''")
          case True
          with ws p1 p2 show ?thesis by (intro tok0 [of TLBrack]) simp_all
        next
          case p3: False
          show ?thesis
          proof (cases "c = CHR '']''")
            case True
            with ws p1 p2 p3 show ?thesis by (intro tok0 [of TRBrack]) simp_all
          next
            case p4: False
            show ?thesis
            proof (cases "c = CHR '':''")
              case True
              with ws p1 p2 p3 p4 show ?thesis by (intro tok0 [of TColon]) simp_all
            next
              case p5: False
              show ?thesis
              proof (cases "c = CHR '',''")
                case True
                with ws p1 p2 p3 p4 p5 show ?thesis by (intro tok0 [of TComma]) simp_all
              next
                case p6: False
                note np = ws p1 p2 p3 p4 p5 p6
                show ?thesis
                proof (cases "c = CHR 0x22")
                  case True
                  show ?thesis
                  proof (cases "lex_string cs")
                    case None
                    with np True show ?thesis by simp
                  next
                    case (Some r)
                    obtain s k where "r = (s, k)" by (cases r)
                    with Some np True have "lex (c # cs) = push (TString s) (lex (drop k cs))" by simp
                    then show ?thesis by (intro tok [of "TString s" k]) simp_all
                  qed
                next
                  case q: False
                  show ?thesis
                  proof (cases "c = CHR ''-'' \<or> is_digit c")
                    case True
                    show ?thesis
                    proof (cases "lex_number (c # cs)")
                      case None
                      with np q True show ?thesis by simp
                    next
                      case (Some r)
                      obtain x k where r: "r = (x, k)" by (cases r)
                      with Some have "parsed_number x" by (simp add: lex_number_parsed)
                      moreover from r Some np q True
                      have "lex (c # cs) = push (TNumber x) (lex (drop (k - 1) cs))" by simp
                      ultimately show ?thesis by (intro tok [of "TNumber x" "k - 1"]) simp_all
                    qed
                  next
                    case num: False
                    show ?thesis
                    proof (cases "prefix ''true'' (c # cs)")
                      case True
                      with np q num have "lex (c # cs) = push TTrue (lex (drop 3 cs))" by simp
                      then show ?thesis by (intro tok [of TTrue 3]) simp_all
                    next
                      case t: False
                      show ?thesis
                      proof (cases "prefix ''false'' (c # cs)")
                        case True
                        then have "c = CHR ''f''" by auto
                        with True np q num t have "lex (c # cs) = push TFalse (lex (drop 4 cs))" by simp
                        then show ?thesis by (intro tok [of TFalse 4]) simp_all
                      next
                        case f: False
                        show ?thesis
                        proof (cases "prefix ''null'' (c # cs)")
                          case True
                          then have "c = CHR ''n''" by auto
                          with True np q num t f have "lex (c # cs) = push TNull (lex (drop 3 cs))" by simp
                          then show ?thesis by (intro tok [of TNull 3]) simp_all
                        next
                          case False
                          with np q num t f have "lex (c # cs) = None" by auto
                          then show ?thesis by simp
                        qed
                      qed
                    qed
                  qed
                qed
              qed
            qed
          qed
        qed
      qed
    qed
  qed
qed

lemma lex_ok: "lex s = Some ts \<Longrightarrow> \<forall>t \<in> set ts. token_ok t"
proof (induction "length s" arbitrary: s ts rule: less_induct)
  case less
  show ?case
  proof (cases s)
    case Nil
    with less.prems show ?thesis by simp
  next
    case (Cons c cs)
    from lex_step [of c cs] consider
      (none) "lex (c # cs) = None"
      | (skip) "lex (c # cs) = lex cs"
      | (tok) t k where "token_ok t" "lex (c # cs) = push t (lex (drop k cs))"
      by auto
    then show ?thesis
    proof cases
      case none
      with less.prems Cons show ?thesis by simp
    next
      case skip
      with less.prems Cons have "lex cs = Some ts" by simp
      moreover have "length cs < length s" using Cons by simp
      ultimately show ?thesis using less.hyps by blast
    next
      case tok
      with less.prems Cons have "push t (lex (drop k cs)) = Some ts" by simp
      then obtain ts' where ts': "lex (drop k cs) = Some ts'" "ts = t # ts'"
        by (cases "lex (drop k cs)") (auto simp: push_def)
      have "length (drop k cs) < length s" using Cons by simp
      with ts'(1) have "\<forall>t \<in> set ts'. token_ok t" using less.hyps by blast
      with tok(1) ts'(2) show ?thesis by simp
    qed
  qed
qed

lemma obj_put_keys: "fst ` set (obj_put k v ms) = insert k (fst ` set ms)"
proof (induction ms)
  case Nil
  show ?case by simp
next
  case (Cons a ms)
  obtain k' v' where a: "a = (k', v')" by (cases a)
  show ?case
  proof (cases "k' = k")
    case True
    then show ?thesis by (simp add: a)
  next
    case False
    with Cons.IH show ?thesis by (simp add: a insert_commute)
  qed
qed

lemma obj_put_distinct: "distinct (map fst ms) \<Longrightarrow> distinct (map fst (obj_put k v ms))"
proof (induction ms)
  case Nil
  show ?case by simp
next
  case (Cons a ms)
  then show ?case using obj_put_keys [of k v ms] by (cases a) auto
qed

lemma obj_put_values:
  "m \<in> set (obj_put k v ms) \<Longrightarrow> m = (k, v) \<or> m \<in> set ms"
  by (induction ms) (auto split: if_splits)

lemma obj_put_parsed:
  assumes "parsed (JObj ms)" and "parsed v"
  shows "parsed (JObj (obj_put k v ms))"
proof -
  have d: "distinct (map fst (obj_put k v ms))" using assms(1) by (simp add: obj_put_distinct)
  have "\<forall>m \<in> set (obj_put k v ms). parsed (snd m)"
  proof
    fix m
    assume "m \<in> set (obj_put k v ms)"
    then have "m = (k, v) \<or> m \<in> set ms" by (rule obj_put_values)
    with assms show "parsed (snd m)" by auto
  qed
  with d show ?thesis by simp
qed

lemma deliver_ok: "parsed v \<Longrightarrow> \<forall>f \<in> set st. frame_ok f \<Longrightarrow> state_ok (deliver v st)"
proof (cases st)
  case Nil
  assume "parsed v"
  with Nil show ?thesis by simp
next
  case (Cons f fs)
  assume c: "parsed v" and a: "\<forall>f \<in> set st. frame_ok f"
  show ?thesis
  proof (cases f)
    case (FArr es)
    with Cons c a show ?thesis by auto
  next
    case (FObj ms k)
    with Cons a have "parsed (JObj ms)" by simp
    then have "parsed (JObj (obj_put k v ms))" using c by (rule obj_put_parsed)
    with Cons FObj a show ?thesis by simp
  qed
qed

lemma begin_value_ok:
  "begin_value t st = Some s' \<Longrightarrow> token_ok t \<Longrightarrow> \<forall>f \<in> set st. frame_ok f \<Longrightarrow> state_ok s'"
  by (cases t) (auto intro!: deliver_ok)

lemma step_ok: "step s t = Some s' \<Longrightarrow> state_ok s \<Longrightarrow> token_ok t \<Longrightarrow> state_ok s'"
proof (cases s)
  case (Expect st)
  assume "step s t = Some s'" "state_ok s" "token_ok t"
  with Expect show ?thesis by (auto intro: begin_value_ok)
next
  case (ArrOpen st)
  assume "step s t = Some s'" "state_ok s" "token_ok t"
  with ArrOpen have st: "\<forall>f \<in> set st. frame_ok f" and t: "token_ok t"
    and r: "t = TRBrack \<and> s' = deliver (JArr []) st \<or> begin_value t (FArr [] # st) = Some s'"
    by (auto split: if_splits)
  from st have st': "\<forall>f \<in> set (FArr [] # st). frame_ok f" by simp
  from r show ?thesis
  proof
    assume "t = TRBrack \<and> s' = deliver (JArr []) st"
    with st show ?thesis by (simp add: deliver_ok)
  next
    assume "begin_value t (FArr [] # st) = Some s'"
    then show ?thesis using t st' by (rule begin_value_ok)
  qed
next
  case (ArrAfter es st)
  assume "step s t = Some s'" "state_ok s" "token_ok t"
  with ArrAfter show ?thesis by (auto split: if_splits intro!: deliver_ok)
next
  case (ObjOpen st)
  assume "step s t = Some s'" "state_ok s" "token_ok t"
  with ObjOpen show ?thesis by (cases t) (auto intro!: deliver_ok)
next
  case (ObjKey ms st)
  assume "step s t = Some s'" "state_ok s" "token_ok t"
  with ObjKey show ?thesis by (cases t) auto
next
  case (ObjColon ms k st)
  assume "step s t = Some s'" "state_ok s" "token_ok t"
  with ObjColon show ?thesis by (auto split: if_splits)
next
  case (ObjAfter ms st)
  assume "step s t = Some s'" "state_ok s" "token_ok t"
  with ObjAfter show ?thesis by (auto split: if_splits intro!: deliver_ok)
next
  case (Done v)
  assume "step s t = Some s'"
  with Done show ?thesis by simp
qed

lemma run_ok: "run s ts = Some s' \<Longrightarrow> state_ok s \<Longrightarrow> \<forall>t \<in> set ts. token_ok t \<Longrightarrow> state_ok s'"
proof (induction ts arbitrary: s)
  case Nil
  then show ?case by simp
next
  case (Cons t ts)
  from Cons.prems(1) obtain s1 where s1: "step s t = Some s1" "run s1 ts = Some s'"
    by (auto split: option.splits)
  from s1(1) Cons.prems(2,3) have "state_ok s1" by (auto intro: step_ok)
  with s1(2) Cons.prems(3) Cons.IH show ?case by auto
qed

lemma JSON_parse_parsed:
  assumes "JSON_parse s = Some v"
  shows "parsed v"
proof (cases "lex s")
  case None
  with assms show ?thesis by (simp add: JSON_parse_def)
next
  case (Some ts)
  then have ok: "\<forall>t \<in> set ts. token_ok t" by (rule lex_ok)
  show ?thesis
  proof (cases "run (Expect []) ts")
    case None
    with Some assms show ?thesis by (simp add: JSON_parse_def)
  next
    case r: (Some st)
    have "state_ok (Expect [])" by simp
    with r have "state_ok st" using ok by (rule run_ok)
    moreover from assms Some r have "st = Done v"
      by (cases st) (simp_all add: JSON_parse_def)
    ultimately show ?thesis by simp
  qed
qed

lemma getAllItems_json_parsed: "parsed (getAllItems_json sl)"
proof (cases "content sl")
  case None
  then show ?thesis by (simp add: getAllItems_json_def)
next
  case (Some data)
  show ?thesis
  proof (cases "JSON_parse data")
    case None
    with Some show ?thesis by (simp add: getAllItems_json_def)
  next
    case p: (Some v)
    then have "parsed v" by (rule JSON_parse_parsed)
    with Some p show ?thesis by (simp add: getAllItems_json_def)
  qed
qed

lemma stringify_array_nonempty: "stringify gap ind (JArr xs) \<noteq> []"
  by (simp add: wrap_def)

lemma white_gaps: "white []" "white ''  ''"
  by (simp_all add: white_def is_json_ws_def)

lemma isArray_iff: "isArray v = (\<exists>xs. v = JArr xs)"
  by (cases v) auto

lemma stringify_nullify: "stringify gap ind (nullify v) = stringify gap ind v"
proof (induction v arbitrary: ind)
  case (JNum x)
  show ?case by (cases x) simp_all
next
  case (JArr xs)
  have eq: "map (stringify gap (ind @ gap) \<circ> nullify) xs = map (stringify gap (ind @ gap)) xs"
    using JArr by simp
  show ?case by (simp add: eq)
next
  case (JObj ms)
  have IH: "\<And>m. m \<in> set ms \<Longrightarrow>
      stringify gap (ind @ gap) (nullify (snd m)) = stringify gap (ind @ gap) (snd m)"
  proof -
    fix m
    assume m: "m \<in> set ms"
    have "snd m \<in> Basic_BNFs.snds m" by (cases m) simp
    with m show "stringify gap (ind @ gap) (nullify (snd m)) = stringify gap (ind @ gap) (snd m)"
      using JObj.IH by blast
  qed
  have eq: "map (\<lambda>(k, v). QuoteJSONString k @ (if gap = [] then '':'' else '': '')
                               @ stringify gap (ind @ gap) v)
          (map (\<lambda>m. (fst m, nullify (snd m))) ms)
      = map (\<lambda>(k, v). QuoteJSONString k @ (if gap = [] then '':'' else '': '')
                               @ stringify gap (ind @ gap) v) ms"
    using IH by (auto simp: case_prod_beta)
  show ?case by (simp only: nullify.simps stringify.simps eq map_is_Nil_conv)
qed simp_all

lemma parsed_nullify: "parsed v \<Longrightarrow> clean (nullify v)"
proof (induction v)
  case (JNum x)
  then show ?case by (cases x) (auto simp: parsed_number_def)
next
  case (JArr xs)
  then show ?case by simp
next
  case (JObj ms)
  have c: "\<And>m. m \<in> set ms \<Longrightarrow> clean (nullify (snd m))"
  proof -
    fix m
    assume m: "m \<in> set ms"
    then have "parsed (snd m)" using JObj.prems by simp
    moreover have "snd m \<in> Basic_BNFs.snds m" by (cases m) simp
    ultimately show "clean (nullify (snd m))" using JObj.IH m by blast
  qed
  have k: "map (fst \<circ> (\<lambda>m. (fst m, nullify (snd m)))) ms = map fst ms"
    by (simp add: comp_def)
  show ?case using JObj.prems c by (simp add: k)
qed simp_all

lemma nullify_all_finite: "all_finite v \<Longrightarrow> nullify v = v"
proof (induction v)
  case (JArr xs)
  then have "map nullify xs = xs" by (intro map_idI) simp
  then show ?case by simp
next
  case (JObj ms)
  have "map (\<lambda>m. (fst m, nullify (snd m))) ms = ms"
  proof (rule map_idI)
    fix m
    assume m: "m \<in> set ms"
    then have "all_finite (snd m)" using JObj.prems by simp
    moreover have "snd m \<in> Basic_BNFs.snds m" by (cases m) simp
    ultimately have "nullify (snd m) = snd m" using JObj.IH m by blast
    then show "(fst m, nullify (snd m)) = m" by simp
  qed
  then show ?case by simp
qed simp_all

lemma JSON_parse_stringify_parsed:
  assumes "parsed v" and "white gap"
  shows "JSON_parse (stringify gap [] v) = Some (nullify v)"
  using JSON_parse_stringify [of "nullify v" gap] assms
  by (simp add: parsed_nullify stringify_nullify del: stringify.simps)

lemma saved_read_back:
  assumes "parsed (JArr xs)"
  shows "getAllItems_json (saveAllItems_json (JArr xs) sl) = JArr (map nullify xs)"
  using JSON_parse_stringify_parsed [OF assms white_gaps(1)]
  by (simp add: getAllItems_json_def saveAllItems_json_def JSON_stringify_def stringify_array_nonempty
      del: stringify.simps)

lemma all_finite_nullify: "all_finite (nullify v)"
proof (induction v)
  case (JObj ms)
  have "\<And>m. m \<in> set ms \<Longrightarrow> all_finite (nullify (snd m))"
  proof -
    fix m
    assume m: "m \<in> set ms"
    have "snd m \<in> Basic_BNFs.snds m" by (cases m) simp
    with m show "all_finite (nullify (snd m))" using JObj.IH by blast
  qed
  then show ?case by simp
qed simp_all

text \<open>Whatever array \<^verbatim>\<open>saveAllItems\<close> was given, the numbers that \<^verbatim>\<open>getAllItems\<close> reads
  from the slot afterwards are finite.\<close>

lemma saved_all_finite:
  assumes "parsed (JArr xs)"
  shows "all_finite (getAllItems_json (saveAllItems_json (JArr xs) sl))"
  using saved_read_back [OF assms, of sl] all_finite_nullify [of "JArr xs"] by simp

text \<open>Records whose numbers are finite are read back as they were written: on them
  the store of the repository model, which keeps the list, agrees with the slot.\<close>

lemma items_read_back:
  assumes "\<forall>i \<in> set items. clean (json_of_item i)"
  shows "getAllItems_json (saveAllItems_json (JArr (map json_of_item items)) sl)
     = JArr (map json_of_item items)"
proof -
  have c: "clean (JArr (map json_of_item items))" using assms by simp
  then have "JSON_parse (stringify [] [] (JArr (map json_of_item items)))
      = Some (JArr (map json_of_item items))"
    using white_gaps(1) by (rule JSON_parse_stringify)
  then show ?thesis
    by (simp add: getAllItems_json_def saveAllItems_json_def JSON_stringify_def stringify_array_nonempty
      del: stringify.simps)
qed

lemma parsed_all_finite_clean: "parsed v \<Longrightarrow> all_finite v \<Longrightarrow> clean v"
  using parsed_nullify [of v] nullify_all_finite [of v] by simp

lemma importData_array:
  assumes "JSON_parse jsonString = Some (JArr xs)"
  shows "importData jsonString sl = (Inr (length xs), saveAllItems_json (JArr xs) sl)"
    and "getAllItems_json (snd (importData jsonString sl)) = JArr (map nullify xs)"
    and "all_finite (JArr xs) \<Longrightarrow> getAllItems_json (snd (importData jsonString sl)) = JArr xs"
proof -
  show run: "importData jsonString sl = (Inr (length xs), saveAllItems_json (JArr xs) sl)"
    using assms by (simp add: importData_def)
  from assms have "parsed (JArr xs)" by (rule JSON_parse_parsed)
  then have "getAllItems_json (saveAllItems_json (JArr xs) sl) = JArr (map nullify xs)"
    by (rule saved_read_back)
  with run show rb: "getAllItems_json (snd (importData jsonString sl)) = JArr (map nullify xs)"
    by simp
  assume "all_finite (JArr xs)"
  then have "nullify (JArr xs) = JArr xs" by (rule nullify_all_finite)
  with rb show "getAllItems_json (snd (importData jsonString sl)) = JArr xs" by simp
qed

subsection \<open>Export followed by import\<close>

text \<open>
  Claim C8. Let the collection be the array that \<^verbatim>\<open>getAllItems\<close> reads from a slot, with
  finite numbers only, as the data model has them and as every slot has them that
  \<^verbatim>\<open>saveAllItems\<close> wrote (lemma \<open>saved_all_finite\<close>). Importing the text that \<^verbatim>\<open>exportData\<close> returns, into any slot whatever it
  holds, succeeds with the number of the items and writes once, and \<^verbatim>\<open>getAllItems\<close>
  then reads the exported array from that slot: every item has the same fields with the
  same values.
\<close>

theorem export_import_roundtrip:
  assumes "getAllItems_json sl = JArr xs" and "all_finite (JArr xs)"
  shows "importData (exportData sl) target = (Inr (length xs), saveAllItems_json (JArr xs) target) \<and>
         getAllItems_json (snd (importData (exportData sl) target)) = JArr xs \<and>
         setItem_count (snd (importData (exportData sl) target)) = Suc (setItem_count target)"
proof -
  have "parsed (JArr xs)" using getAllItems_json_parsed [of sl] assms(1) by simp
  then have c: "clean (JArr xs)" using assms(2) by (rule parsed_all_finite_clean)
  have p: "JSON_parse (exportData sl) = Some (JArr xs)"
    using JSON_parse_stringify [OF c white_gaps(2)] assms(1)
    by (simp add: exportData_def JSON_stringify_indent2_def del: stringify.simps)
  have run: "importData (exportData sl) target = (Inr (length xs), saveAllItems_json (JArr xs) target)"
    using p by (rule importData_array(1))
  have rb: "getAllItems_json (snd (importData (exportData sl) target)) = JArr xs"
    using p assms(2) by (rule importData_array(3))
  have "setItem_count (saveAllItems_json (JArr xs) target) = Suc (setItem_count target)"
    by (simp add: saveAllItems_json_def)
  with run have wr: "setItem_count (snd (importData (exportData sl) target)) = Suc (setItem_count target)"
    by simp
  from run rb wr show ?thesis by blast
qed

theorem export_import_roundtrip_witness:
  "getAllItems_json stocked = JArr (map json_of_item [gadget, widget]) \<and>
   all_finite (JArr (map json_of_item [gadget, widget])) \<and>
   getAllItems_json used_slot = JArr [JNum (Number 1)] \<and>
   fst (importData (exportData stocked) used_slot) = Inr 2 \<and>
   getAllItems_json (snd (importData (exportData stocked) used_slot))
     = JArr (map json_of_item [gadget, widget]) \<and>
   setItem_count (snd (importData (exportData stocked) used_slot)) = 4"
proof -
  have h: "getAllItems_json stocked = JArr (map json_of_item [gadget, widget])"
    by code_simp
  have f: "all_finite (JArr (map json_of_item [gadget, widget]))"
    by code_simp
  have u: "getAllItems_json used_slot = JArr [JNum (Number 1)]" by code_simp
  have n: "setItem_count used_slot = 3" by (simp add: used_slot_def)
  note r = export_import_roundtrip [OF h f, of used_slot]
  from r have a: "fst (importData (exportData stocked) used_slot) = Inr 2" by simp
  from r have b: "getAllItems_json (snd (importData (exportData stocked) used_slot))
     = JArr (map json_of_item [gadget, widget])" by blast
  from r have "setItem_count (snd (importData (exportData stocked) used_slot))
     = Suc (setItem_count used_slot)" by blast
  with n have c: "setItem_count (snd (importData (exportData stocked) used_slot)) = 4" by simp
  from h f u a b c show ?thesis by blast
qed

subsection \<open>What import accepts\<close>

text \<open>
  Claim C9, as stated: a payload that decodes to a sequence replaces the collection
  with the decoded sequence. It fails for a payload with a number that overflows:
  \<^verbatim>\<open>[1e309]\<close> decodes to an array that holds \<open>Infinity\<close>, \<^verbatim>\<open>JSON.stringify\<close> writes
  \<^verbatim>\<open>[null]\<close>, and the collection read afterwards holds \<^verbatim>\<open>null\<close>.
\<close>

theorem importData_overflow_counterexample:
  "JSON_parse ''[1e309]'' = Some (JArr [JNum PosInfinity]) \<and>
   fst (importData ''[1e309]'' empty_slot) = Inr 1 \<and>
   getAllItems_json (snd (importData ''[1e309]'' empty_slot)) = JArr [JNull] \<and>
   JArr [JNull] \<noteq> JArr [JNum PosInfinity]"
  by code_simp

text \<open>
  Claim C9, amended. A text that \<^verbatim>\<open>JSON.parse\<close> rejects makes \<^verbatim>\<open>importData\<close> fail with the
  syntax error, a text that parses to something other than an array makes it fail
  with \<^verbatim>\<open>Invalid data format\<close>, and in both cases the slot is as before, with no
  call of \<^verbatim>\<open>setItem\<close>. A text that parses to an array is accepted: the result is the
  length of the array, the array is written over what the slot held, and
  \<^verbatim>\<open>getAllItems\<close> then reads the array with \<^verbatim>\<open>null\<close> in place of every number that
  overflowed to an infinity; so it reads exactly the decoded array when all its numbers
  are finite.
\<close>

theorem importData_format:
  "(JSON_parse jsonString = None \<longrightarrow> importData jsonString sl = (Inl SyntaxError, sl)) \<and>
   (JSON_parse jsonString = Some v \<and> (\<forall>xs. v \<noteq> JArr xs) \<longrightarrow>
      importData jsonString sl = (Inl InvalidDataFormat, sl)) \<and>
   (JSON_parse jsonString = Some (JArr xs) \<longrightarrow>
      importData jsonString sl = (Inr (length xs), saveAllItems_json (JArr xs) sl) \<and>
      getAllItems_json (snd (importData jsonString sl)) = JArr (map nullify xs) \<and>
      (all_finite (JArr xs) \<longrightarrow> getAllItems_json (snd (importData jsonString sl)) = JArr xs))"
proof -
  have a: "JSON_parse jsonString = None \<longrightarrow> importData jsonString sl = (Inl SyntaxError, sl)"
    by (simp add: importData_def)
  have b: "JSON_parse jsonString = Some v \<and> (\<forall>xs. v \<noteq> JArr xs) \<longrightarrow>
      importData jsonString sl = (Inl InvalidDataFormat, sl)"
    by (auto simp: importData_def isArray_iff)
  have c: "JSON_parse jsonString = Some (JArr xs) \<longrightarrow>
      importData jsonString sl = (Inr (length xs), saveAllItems_json (JArr xs) sl) \<and>
      getAllItems_json (snd (importData jsonString sl)) = JArr (map nullify xs) \<and>
      (all_finite (JArr xs) \<longrightarrow> getAllItems_json (snd (importData jsonString sl)) = JArr xs)"
  proof
    assume p: "JSON_parse jsonString = Some (JArr xs)"
    from importData_array [OF p, of sl]
    show "importData jsonString sl = (Inr (length xs), saveAllItems_json (JArr xs) sl) \<and>
      getAllItems_json (snd (importData jsonString sl)) = JArr (map nullify xs) \<and>
      (all_finite (JArr xs) \<longrightarrow> getAllItems_json (snd (importData jsonString sl)) = JArr xs)"
      by blast
  qed
  from a b c show ?thesis by blast
qed

theorem importData_format_witness:
  "importData ''[1,2,]'' stocked = (Inl SyntaxError, stocked) \<and>
   importData ''{}'' stocked = (Inl InvalidDataFormat, stocked) \<and>
   fst (importData ''[1, 2.50]'' stocked) = Inr 2 \<and>
   getAllItems_json (snd (importData ''[1, 2.50]'' stocked)) = JArr [JNum (Number 1), JNum (Fin 25 1)] \<and>
   getAllItems_json (snd (importData ''[1e309, 7]'' stocked)) = JArr [JNull, JNum (Number 7)]"
proof -
  have a: "JSON_parse ''[1,2,]'' = None" by code_simp
  have b: "JSON_parse ''{}'' = Some (JObj []) \<and> (\<forall>xs. JObj [] \<noteq> JArr xs)"
    by (rule conjI, code_simp, simp)
  have c: "JSON_parse ''[1, 2.50]'' = Some (JArr [JNum (Number 1), JNum (Fin 25 1)])" by code_simp
  have f: "all_finite (JArr [JNum (Number 1), JNum (Fin 25 1)])" by simp
  have d: "JSON_parse ''[1e309, 7]'' = Some (JArr [JNum PosInfinity, JNum (Number 7)])" by code_simp
  from importData_format [of "''[1,2,]''" stocked] a
  have 1: "importData ''[1,2,]'' stocked = (Inl SyntaxError, stocked)" by simp
  from importData_format [of "''{}''" stocked "JObj []"] b
  have 2: "importData ''{}'' stocked = (Inl InvalidDataFormat, stocked)" by simp
  note r = importData_format [of "''[1, 2.50]''" stocked _ "[JNum (Number 1), JNum (Fin 25 1)]"]
  from r c have "importData ''[1, 2.50]'' stocked
      = (Inr (length [JNum (Number 1), JNum (Fin 25 1)]),
         saveAllItems_json (JArr [JNum (Number 1), JNum (Fin 25 1)]) stocked)" by blast
  then have 3: "fst (importData ''[1, 2.50]'' stocked) = Inr 2" by simp
  from r c f have 4: "getAllItems_json (snd (importData ''[1, 2.50]'' stocked))
      = JArr [JNum (Number 1), JNum (Fin 25 1)]" by blast
  from importData_format [of "''[1e309, 7]''" stocked _ "[JNum PosInfinity, JNum (Number 7)]"] d
  have "getAllItems_json (snd (importData ''[1e309, 7]'' stocked))
      = JArr (map nullify [JNum PosInfinity, JNum (Number 7)])" by blast
  then have 5: "getAllItems_json (snd (importData ''[1e309, 7]'' stocked)) = JArr [JNull, JNum (Number 7)]"
    by simp
  from 1 2 3 4 5 show ?thesis by blast
qed

subsection \<open>Quantities and their sign\<close>








end
